theory Spec2Isabelle
  imports Complex_Main "HOL-Library.AList"
begin

section \<open>The maximum power point tracker of centralcontrol (mppt.py)\<close>

text \<open>
  A shallow embedding of the class \<open>mppt\<close> of \<open>src/centralcontrol/mppt.py\<close>.
  Python floats are modelled as \<^typ>\<open>real\<close> (no rounding, no NaN, no infinity), Python
  dictionaries as association lists in insertion order (\<open>AList.update\<close> keeps the place of
  an existing key and appends a new one, as a Python \<open>dict\<close> does; \<open>AList.delete\<close> is
  \<open>pop(k, None)\<close>), and every exception the source can raise is a value of \<open>error\<close>.
\<close>

subsection \<open>Data\<close>

type_synonym chan = int

text \<open>A measurement record is the tuple \<open>(V, I, t, status)\<close>.\<close>

type_synonym meas = "real \<times> real \<times> real \<times> int"

type_synonym 'v dict = "(chan \<times> 'v) list"

definition m_v :: "meas \<Rightarrow> real" where
  "m_v e = fst e"

definition m_i :: "meas \<Rightarrow> real" where
  "m_i e = fst (snd e)"

definition m_t :: "meas \<Rightarrow> real" where
  "m_t e = fst (snd (snd e))"

definition m_status :: "meas \<Rightarrow> int" where
  "m_status e = snd (snd (snd e))"

datatype verr = Usage | FloatConv | NegativeSleep | EmptySequence

datatype error =
    ValueError verr
  | KeyError
  | IndexError
  | TypeError
  | ZeroDivisionError
  | AttributeError

text \<open>\<open>d[k]\<close> raises \<open>KeyError\<close> on a missing key.\<close>

definition getitem :: "'v dict \<Rightarrow> chan \<Rightarrow> error + 'v" where
  "getitem d k = (case map_of d k of None \<Rightarrow> Inl KeyError | Some v \<Rightarrow> Inr v)"

definition keys :: "'v dict \<Rightarrow> chan list" where
  "keys d = map fst d"

text \<open>\<open>sorted(d.items())\<close>: the keys of a dictionary are distinct, so the order of the
  pairs is the order of the keys.\<close>

definition sorted_items :: "'v dict \<Rightarrow> (chan \<times> 'v) list" where
  "sorted_items d = sort_key fst d"

subsection \<open>The numpy reductions used by the curve inspector\<close>

text \<open>\<open>numpy.argmax\<close> returns the first index of the maximum, \<open>numpy.argmin\<close> the first
  index of the minimum; both raise \<open>ValueError\<close> on an empty array.\<close>

fun argmax_aux :: "real list \<Rightarrow> nat \<Rightarrow> nat \<Rightarrow> real \<Rightarrow> nat" where
  "argmax_aux [] i best bv = best"
| "argmax_aux (x # xs) i best bv =
     (if bv < x then argmax_aux xs (Suc i) i x else argmax_aux xs (Suc i) best bv)"

definition argmax :: "real list \<Rightarrow> error + nat" where
  "argmax xs = (case xs of [] \<Rightarrow> Inl (ValueError EmptySequence)
                | x # r \<Rightarrow> Inr (argmax_aux r 1 0 x))"

fun argmin_aux :: "real list \<Rightarrow> nat \<Rightarrow> nat \<Rightarrow> real \<Rightarrow> nat" where
  "argmin_aux [] i best bv = best"
| "argmin_aux (x # xs) i best bv =
     (if x < bv then argmin_aux xs (Suc i) i x else argmin_aux xs (Suc i) best bv)"

definition argmin :: "real list \<Rightarrow> error + nat" where
  "argmin xs = (case xs of [] \<Rightarrow> Inl (ValueError EmptySequence)
                | x # r \<Rightarrow> Inr (argmin_aux r 1 0 x))"

text \<open>The builtins \<open>min\<close> and \<open>max\<close> over a non-empty sequence.\<close>

definition min_list :: "real list \<Rightarrow> real" where
  "min_list xs = fold min (tl xs) (hd xs)"

definition max_list :: "real list \<Rightarrow> real" where
  "max_list xs = fold max (tl xs) (hd xs)"

subsection \<open>The tracker object\<close>

datatype event =
    SetNplc real
  | EnableOutput bool "chan list"
  | ConfigureDC "real dict"
  | Measure "chan list"
  | MeasureOne chan
  | Sleep real
  | Callback "meas dict"
  | Warn string
  | MqttLog string
  | LogInfo string

text \<open>
  The fields of the class, followed by the two fields that stand for the world outside
  it: \<open>events\<close> is the chronological list of the calls made on the source-measure unit,
  the callback, \<open>time.sleep\<close>, \<open>warnings.warn\<close>, the telemetry sink and the logger
  (only the log lines a claim speaks of), and \<open>ticks\<close> counts the readings of
  \<open>time.time()\<close> taken so far. \<open>voltage_lock\<close> is \<open>None\<close> until \<open>launch_tracker\<close>
  creates the attribute.
\<close>

record mppt =
  Voc :: "real dict"
  Isc :: "real dict"
  Mmpp :: "(real \<times> real \<times> real) dict"
  Vmpp :: "real dict"
  Impp :: "real dict"
  Pmax :: "real dict"
  absolute_current_limit :: real
  t0 :: "real option"
  voltage_lock :: "bool option"
  has_mqttc :: bool
  events :: "event list"
  ticks :: nat

text \<open>\<open>__init__\<close> on a fresh class: every dictionary is empty.\<close>

definition init :: "real \<Rightarrow> bool \<Rightarrow> mppt" where
  "init acl mq =
     \<lparr>Voc = [], Isc = [], Mmpp = [], Vmpp = [], Impp = [], Pmax = [],
      absolute_current_limit = \<bar>acl\<bar>, t0 = None, voltage_lock = None,
      has_mqttc = mq, events = [], ticks = 0\<rparr>"

definition reset :: "mppt \<Rightarrow> mppt" where
  "reset s = s\<lparr>Voc := [], Isc := [], Mmpp := [], Vmpp := [], Impp := [], Pmax := [],
              t0 := None\<rparr>"

subsection \<open>\<open>register_curve\<close>\<close>

type_synonym curve_result = "real dict \<times> real dict \<times> real dict \<times> nat dict"

text \<open>The body of the loop over \<open>sorted(vector.items())\<close> for one channel. The state is
  returned also when the body raises, since the channels before it were already stored.\<close>

definition register_ch ::
  "bool \<Rightarrow> chan \<Rightarrow> meas list \<Rightarrow> mppt \<Rightarrow> curve_result \<Rightarrow> mppt \<times> (error + curve_result)" where
  "register_ch light ch ch_data s r =
    (let v = map m_v ch_data;
         i = map m_i ch_data;
         t = map m_t ch_data;
         p = map (\<lambda>e. m_v e * m_i e * (- 1)) ch_data
     in case argmin (map abs v) of Inl e \<Rightarrow> (s, Inl e) | Inr iscIndex \<Rightarrow>
        (case argmin (map abs i) of Inl e \<Rightarrow> (s, Inl e) | Inr vocIndex \<Rightarrow>
        (case argmax p of Inl e \<Rightarrow> (s, Inl e) | Inr maxIndex \<Rightarrow>
          (let Isc' = i ! iscIndex;
               Voc' = v ! vocIndex;
               Vmpp' = v ! maxIndex;
               Pmax' = p ! maxIndex;
               Impp' = i ! maxIndex;
               Tmpp' = t ! maxIndex;
               (Pmaxs, Vmpps, Impps, maxIndexs) = r;
               r' = (AList.update ch Pmax' Pmaxs, AList.update ch Vmpp' Vmpps,
                     AList.update ch Impp' Impps, AList.update ch maxIndex maxIndexs)
           in if light then
                (let new_pmax = (case map_of (Pmax s) ch of
                                   Some old \<Rightarrow> old < Pmax'
                                 | None \<Rightarrow> True)
                 in if new_pmax then
                      (let s1 = s\<lparr>Vmpp := AList.update ch Vmpp' (Vmpp s),
                                  Impp := AList.update ch Impp' (Impp s),
                                  Pmax := AList.update ch Pmax' (Pmax s),
                                  Mmpp := AList.update ch (Vmpp', Impp', Tmpp') (Mmpp s)\<rparr>;
                           s2 = (if min_list v \<le> 0 \<and> 0 \<le> max_list v
                                 then s1\<lparr>Isc := AList.update ch Isc' (Isc s1)\<rparr> else s1);
                           s3 = (if min_list i \<le> 0 \<and> 0 \<le> max_list i
                                 then s2\<lparr>Voc := AList.update ch Voc' (Voc s2)\<rparr> else s2)
                       in (s3, Inr r'))
                    else (s, Inr r'))
              else (s, Inr r')))))"

fun register_loop ::
  "bool \<Rightarrow> (chan \<times> meas list) list \<Rightarrow> mppt \<Rightarrow> curve_result \<Rightarrow> mppt \<times> (error + curve_result)" where
  "register_loop light [] s r = (s, Inr r)"
| "register_loop light ((ch, ch_data) # rest) s r =
     (case register_ch light ch ch_data s r of
        (s', Inl e) \<Rightarrow> (s', Inl e)
      | (s', Inr r') \<Rightarrow> register_loop light rest s' r')"

definition register_curve ::
  "meas list dict \<Rightarrow> bool \<Rightarrow> mppt \<Rightarrow> mppt \<times> (error + curve_result)" where
  "register_curve vector light s = register_loop light (sorted_items vector) s ([], [], [], [])"

subsection \<open>The world outside the tracker\<close>

text \<open>
  What the run cannot decide by itself is read from an environment: \<open>clock\<close> gives
  the successive readings of \<open>time.time()\<close>; \<open>smu_measure\<close> is the source-measure
  unit, a deterministic function from the history of events (ending with the measure
  request) to the dictionary it answers; \<open>abort_sig i\<close> is the value of \<open>self.abort\<close>
  (set by an observer thread) read at the head of the main loop after \<open>i\<close> iterations;
  \<open>coin i\<close> is the outcome of \<open>random.choice([-1, 1])\<close> in iteration \<open>i\<close>
  (\<open>True\<close> for \<open>1\<close>); \<open>to_float\<close> is the builtin \<open>float\<close> on strings, \<open>None\<close> where it
  raises \<open>ValueError\<close>.
\<close>

record env =
  clock :: "nat \<Rightarrow> real"
  smu_measure :: "event list \<Rightarrow> meas list dict"
  abort_sig :: "nat \<Rightarrow> bool"
  coin :: "nat \<Rightarrow> bool"
  to_float :: "string \<Rightarrow> real option"

record pixel =
  device_label :: string

definition emit :: "event \<Rightarrow> mppt \<Rightarrow> mppt" where
  "emit e s = s\<lparr>events := events s @ [e]\<rparr>"

definition time_time :: "env \<Rightarrow> mppt \<Rightarrow> real \<times> mppt" where
  "time_time env s = (clock env (ticks s), s\<lparr>ticks := Suc (ticks s)\<rparr>)"

text \<open>\<open>self.sm.measure(channels, measurement="dc")\<close> with a list of channels.\<close>

definition sm_measure :: "env \<Rightarrow> chan list \<Rightarrow> mppt \<Rightarrow> meas list dict \<times> mppt" where
  "sm_measure env channels s =
     (let s1 = emit (Measure channels) s in (smu_measure env (events s1), s1))"

text \<open>\<open>self.sm.measure(ch, "dc")\<close> with a single channel number.\<close>

definition sm_measure_one :: "env \<Rightarrow> chan \<Rightarrow> mppt \<Rightarrow> meas list dict \<times> mppt" where
  "sm_measure_one env ch s =
     (let s1 = emit (MeasureOne ch) s in (smu_measure env (events s1), s1))"

text \<open>\<open>time.sleep\<close> raises \<open>ValueError\<close> on a negative length.\<close>

definition time_sleep :: "real \<Rightarrow> mppt \<Rightarrow> mppt \<times> (error + unit)" where
  "time_sleep secs s =
     (if secs < 0 then (s, Inl (ValueError NegativeSleep)) else (emit (Sleep secs) s, Inr ()))"

subsection \<open>\<open>detect_short_circuits\<close> and \<open>tuplify_data\<close>\<close>

definition warn_message :: "string \<Rightarrow> string" where
  "warn_message label =
     ''Short circuit detected on '' @ [CHR 0x27] @ label @ [CHR 0x27] @
     ''! Channel will be disabled for the rest of the run.''"

definition other_channel :: "chan \<Rightarrow> chan" where
  "other_channel ch = (if ch mod 2 = 0 then ch + 1 else ch - 1)"

text \<open>\<open>self.sm.measure(mch, "dc")[ich][0][3]\<close>: measure channel \<open>mch\<close>, read the status
  of the first record stored under \<open>ich\<close> in the answer.\<close>

definition probe_status :: "env \<Rightarrow> chan \<Rightarrow> chan \<Rightarrow> mppt \<Rightarrow> mppt \<times> (error + int)" where
  "probe_status env mch ich s =
     (let (resp, s1) = sm_measure_one env mch s
      in case getitem resp ich of
           Inl e \<Rightarrow> (s1, Inl e)
         | Inr rows \<Rightarrow> (case rows of [] \<Rightarrow> (s1, Inl IndexError)
                        | r # _ \<Rightarrow> (s1, Inr (m_status r))))"

text \<open>The block \<open>if warn is True\<close> at the end of the loop body.\<close>

definition log_warning :: "string \<Rightarrow> mppt \<Rightarrow> mppt" where
  "log_warning msg s = emit (LogInfo msg) (if has_mqttc s then emit (MqttLog msg) s else s)"

text \<open>One pass of the loop \<open>for ch in channels\<close>; \<open>enable_output\<close> with a single channel
  number is recorded with the one-element list.\<close>

definition detect_ch ::
  "env \<Rightarrow> chan \<Rightarrow> meas list dict \<times> pixel dict \<Rightarrow> mppt
     \<Rightarrow> mppt \<times> (error + meas list dict \<times> pixel dict)" where
  "detect_ch env ch dp s =
    (let (data, pixels) = dp
     in case getitem pixels ch of Inl e \<Rightarrow> (s, Inl e) | Inr px \<Rightarrow>
       (let warn_msg = warn_message (device_label px)
        in case getitem data ch of Inl e \<Rightarrow> (s, Inl e) | Inr ch_data \<Rightarrow>
          (let statuses = map m_status ch_data
           in if 1 \<in> set statuses then
                (let s1 = emit (EnableOutput False [ch]) s;
                     pixels1 = AList.delete ch pixels;
                     s2 = emit (Warn warn_msg) s1;
                     data1 = AList.delete ch data
                 in (log_warning warn_msg s2, Inr (data1, pixels1)))
              else if 2 \<in> set statuses then
                (if ch \<in> set (keys pixels) then
                   (let other_ch = other_channel ch;
                        s1 = emit (EnableOutput False [ch]) s
                    in case probe_status env other_ch ch s1 of
                         (s2, Inl e) \<Rightarrow> (s2, Inl e)
                       | (s2, Inr status) \<Rightarrow>
                           if status = 2 then
                             (let s3 = emit (EnableOutput True [ch]) s2;
                                  s4 = emit (EnableOutput False [other_ch]) s3;
                                  pixels1 = AList.delete other_ch pixels;
                                  s5 = emit (Warn warn_msg) s4;
                                  data1 = AList.delete other_ch data
                              in case probe_status env ch ch s5 of
                                   (s6, Inl e) \<Rightarrow> (s6, Inl e)
                                 | (s6, Inr status2) \<Rightarrow>
                                     if status2 = 2 then
                                       (let s7 = emit (EnableOutput False [ch]) s6;
                                            pixels2 = AList.delete ch pixels1;
                                            s8 = emit (Warn warn_msg) s7;
                                            data2 = AList.delete ch data1
                                        in (log_warning warn_msg s8, Inr (data2, pixels2)))
                                     else (log_warning warn_msg s6, Inr (data1, pixels1)))
                           else
                             (let pixels1 = AList.delete ch pixels;
                                  s3 = emit (Warn warn_msg) s2;
                                  data1 = AList.delete ch data
                              in (log_warning warn_msg s3, Inr (data1, pixels1))))
                 else (s, Inr (data, pixels)))
              else (s, Inr (data, pixels)))))"

fun detect_loop ::
  "env \<Rightarrow> chan list \<Rightarrow> meas list dict \<times> pixel dict \<Rightarrow> mppt
     \<Rightarrow> mppt \<times> (error + meas list dict \<times> pixel dict)" where
  "detect_loop env [] dp s = (s, Inr dp)"
| "detect_loop env (ch # chs) dp s =
     (case detect_ch env ch dp s of
        (s', Inl e) \<Rightarrow> (s', Inl e)
      | (s', Inr dp') \<Rightarrow> detect_loop env chs dp' s')"

text \<open>The two dictionaries are mutated in place by the source; the model returns them.\<close>

definition detect_short_circuits ::
  "env \<Rightarrow> meas list dict \<Rightarrow> pixel dict \<Rightarrow> mppt
     \<Rightarrow> mppt \<times> (error + meas list dict \<times> pixel dict)" where
  "detect_short_circuits env data pixels s = detect_loop env (keys pixels) (data, pixels) s"

fun tuplify_loop :: "(chan \<times> meas list) list \<Rightarrow> meas dict \<Rightarrow> error + meas dict" where
  "tuplify_loop [] acc = Inr acc"
| "tuplify_loop ((ch, ch_data) # rest) acc =
     (case ch_data of [] \<Rightarrow> Inl IndexError
      | r # _ \<Rightarrow> tuplify_loop rest (AList.update ch r acc))"

definition tuplify_data :: "meas list dict \<Rightarrow> error + meas dict" where
  "tuplify_data data = tuplify_loop data []"

subsection \<open>\<open>gradient_descent\<close>\<close>

text \<open>The keyword arguments of \<open>gradient_descent\<close> that the loops read. \<open>max_step\<close> is a
  real number, so the test \<open>max_step < float("inf")\<close> of the source is always true and
  is left out.\<close>

record gd_params =
  duration :: real
  alpha :: real
  min_step :: real
  delay_ms :: real
  max_step :: real
  momentum :: real
  delta_zero :: real

text \<open>The argument \<open>start_voltage\<close> is only formatted into log lines; \<open>launch_tracker\<close>
  passes the dictionary \<open>self.Vmpp\<close>.\<close>

datatype pyval = PyDict "real dict" | PyFloat real

text \<open>The local variables of the main loop: the (mutated) \<open>pixels\<close>, the measurement
  buffer \<open>m\<close> (a deque of at most 20 dictionaries, newest first), \<open>deltas\<close>,
  \<open>next_voltages\<close>, \<open>run_time\<close> and the iteration counter \<open>i\<close>.\<close>

record gd_vars =
  gv_pixels :: "pixel dict"
  gv_m :: "meas list dict list"
  gv_deltas :: "real dict"
  gv_next :: "real dict"
  gv_run_time :: real
  gv_i :: nat

definition objective :: "meas \<Rightarrow> real" where
  "objective var = m_v var * m_i var"

definition sign :: "real \<Rightarrow> real" where
  "sign num = (if num < 0 then - 1 else 1)"

text \<open>The quadrant restriction applied to every new setpoint.\<close>

definition lock_clamp :: "bool \<Rightarrow> real \<Rightarrow> real" where
  "lock_clamp lock new_v =
     (if lock \<and> new_v < 0 then 0.0001
      else if \<not> lock \<and> new_v > 0 then - 0.0001
      else new_v)"

text \<open>The four lines \<open>measure\<close>, \<open>detect_short_circuits\<close>, \<open>tuplify_data\<close>, \<open>callback\<close>
  that every measurement of \<open>gradient_descent\<close> goes through.\<close>

definition measure_and_check ::
  "env \<Rightarrow> pixel dict \<Rightarrow> mppt \<Rightarrow> mppt \<times> (error + meas list dict \<times> pixel dict)" where
  "measure_and_check env pixels s =
     (let (data, s1) = sm_measure env (keys pixels) s
      in case detect_short_circuits env data pixels s1 of
           (s2, Inl e) \<Rightarrow> (s2, Inl e)
         | (s2, Inr (data', pixels')) \<Rightarrow>
             (case tuplify_data data' of
                Inl e \<Rightarrow> (s2, Inl e)
              | Inr tuple_data \<Rightarrow> (emit (Callback tuple_data) s2, Inr (data', pixels'))))"

text \<open>\<open>for ch, ch_data in sorted(data.items()): spos[ch].extend(ch_data)\<close>\<close>

fun spos_extend :: "(chan \<times> meas list) list \<Rightarrow> meas list dict \<Rightarrow> error + meas list dict" where
  "spos_extend [] spos = Inr spos"
| "spos_extend ((ch, ch_data) # rest) spos =
     (case getitem spos ch of
        Inl e \<Rightarrow> Inl e
      | Inr old \<Rightarrow> spos_extend rest (AList.update ch (old @ ch_data) spos))"

text \<open>The steady-state loop of the Snaith soaks. The pre-soak (\<open>pre = True\<close>) sleeps
  before each measurement, the post-soak after it. Without fuel the loop has not returned
  (\<open>None\<close>).\<close>

fun soak_loop ::
  "nat \<Rightarrow> env \<Rightarrow> bool \<Rightarrow> real \<Rightarrow> real \<Rightarrow> real \<Rightarrow> pixel dict \<Rightarrow> meas list dict \<Rightarrow> mppt
     \<Rightarrow> mppt \<times> (error + pixel dict \<times> meas list dict) option" where
  "soak_loop 0 env pre delay start this_soak_t pixels spos s = (s, None)"
| "soak_loop (Suc n) env pre delay start this_soak_t pixels spos s =
     (let (now, s1) = time_time env s
      in if now - start < this_soak_t \<and> pixels \<noteq> [] then
           (case (if pre then time_sleep (delay / 1000) s1 else (s1, Inr ())) of
              (s2, Inl e) \<Rightarrow> (s2, Some (Inl e))
            | (s2, Inr _) \<Rightarrow>
                (case measure_and_check env pixels s2 of
                   (s3, Inl e) \<Rightarrow> (s3, Some (Inl e))
                 | (s3, Inr (data, pixels')) \<Rightarrow>
                     (case spos_extend (sorted_items data) spos of
                        Inl e \<Rightarrow> (s3, Some (Inl e))
                      | Inr spos' \<Rightarrow>
                          (case (if pre then (s3, Inr ()) else time_sleep (delay / 1000) s3) of
                             (s4, Inl e) \<Rightarrow> (s4, Some (Inl e))
                           | (s4, Inr _) \<Rightarrow>
                               soak_loop n env pre delay start this_soak_t pixels' spos' s4))))
         else (s1, Some (Inr (pixels, spos))))"

text \<open>One soak: \<open>spos\<close> gets an empty list per channel, the clock is read, the loop runs,
  and \<open>self.q.extend(spos)\<close> appends the keys of the dictionary \<open>spos\<close> to \<open>q\<close>.\<close>

definition soak ::
  "nat \<Rightarrow> env \<Rightarrow> bool \<Rightarrow> real \<Rightarrow> real \<Rightarrow> pixel dict \<Rightarrow> chan list \<Rightarrow> mppt
     \<Rightarrow> mppt \<times> (error + pixel dict \<times> chan list) option" where
  "soak fuel env pre delay this_soak_t pixels q s =
     (let spos = map (\<lambda>ch. (ch, [])) (keys pixels);
          (start, s1) = time_time env s
      in case soak_loop fuel env pre delay start this_soak_t pixels spos s1 of
           (s2, None) \<Rightarrow> (s2, None)
         | (s2, Some (Inl e)) \<Rightarrow> (s2, Some (Inl e))
         | (s2, Some (Inr (pixels', spos'))) \<Rightarrow> (s2, Some (Inr (pixels', q @ keys spos'))))"

text \<open>\<open>run_time = time.time() - self.t0\<close>\<close>

definition read_run_time :: "env \<Rightarrow> mppt \<Rightarrow> mppt \<times> (error + real)" where
  "read_run_time env s =
     (let (now, s1) = time_time env s
      in case t0 s1 of None \<Rightarrow> (s1, Inl TypeError) | Some start \<Rightarrow> (s1, Inr (now - start)))"

text \<open>The first setpoints: \<open>self.Vmpp[ch] + deltas[ch]\<close> under the quadrant restriction.\<close>

fun seed_loop ::
  "bool option \<Rightarrow> chan list \<Rightarrow> real dict \<Rightarrow> real dict \<Rightarrow> real dict \<Rightarrow> error + real dict" where
  "seed_loop lock [] vmpp deltas next_voltages = Inr next_voltages"
| "seed_loop lock (ch # chs) vmpp deltas next_voltages =
     (case getitem vmpp ch of Inl e \<Rightarrow> Inl e | Inr vm \<Rightarrow>
     (case getitem deltas ch of Inl e \<Rightarrow> Inl e | Inr d \<Rightarrow>
     (case lock of None \<Rightarrow> Inl AttributeError | Some l \<Rightarrow>
        seed_loop lock chs vmpp deltas (AList.update ch (lock_clamp l (vm + d)) next_voltages))))"

text \<open>\<open>compute_grad\<close>: the first record of every channel of the two newest entries of the
  buffer, then the finite difference per channel of the newest entry.\<close>

definition first_records :: "meas list dict \<Rightarrow> error + meas dict" where
  "first_records d = tuplify_loop (sorted_items d) []"

fun grad_loop ::
  "chan list \<Rightarrow> meas dict \<Rightarrow> meas dict \<Rightarrow> real option dict \<Rightarrow> error + real option dict" where
  "grad_loop [] f0 f1 gradient = Inr gradient"
| "grad_loop (ch # chs) f0 f1 gradient =
     (case getitem f0 ch of Inl e \<Rightarrow> Inl e | Inr r0 \<Rightarrow>
     (case getitem f1 ch of Inl e \<Rightarrow> Inl e | Inr r1 \<Rightarrow>
        if m_v r0 = m_v r1 then grad_loop chs f0 f1 (AList.update ch None gradient)
        else if m_t r0 - m_t r1 = 0 then Inl ZeroDivisionError
        else grad_loop chs f0 f1
               (AList.update ch
                  (Some ((objective r0 - objective r1) / (m_v r0 - m_v r1) / (m_t r0 - m_t r1)))
                  gradient)))"

definition compute_grad :: "meas list dict list \<Rightarrow> error + real option dict" where
  "compute_grad data =
     (case data of
        d0 # d1 # _ \<Rightarrow>
          (case first_records d0 of Inl e \<Rightarrow> Inl e | Inr f0 \<Rightarrow>
          (case first_records d1 of Inl e \<Rightarrow> Inl e | Inr f1 \<Rightarrow>
             grad_loop (keys d0) f0 f1 []))
      | _ \<Rightarrow> Inl IndexError)"

text \<open>\<open>for ch, gradient in gradients.items()\<close>: gradient descent with momentum, or the
  randomly signed smallest step where the gradient is undefined.\<close>

fun momentum_loop ::
  "gd_params \<Rightarrow> real \<Rightarrow> (chan \<times> real option) list \<Rightarrow> real dict \<Rightarrow> error + real dict" where
  "momentum_loop P some_sign [] deltas = Inr deltas"
| "momentum_loop P some_sign ((ch, g) # rest) deltas =
     (case g of
        Some gradient \<Rightarrow>
          (case getitem deltas ch of
             Inl e \<Rightarrow> Inl e
           | Inr d \<Rightarrow>
               momentum_loop P some_sign rest
                 (AList.update ch (- 1 * alpha P * gradient + momentum P * d) deltas))
      | None \<Rightarrow>
          momentum_loop P some_sign rest
            (AList.update ch
               (if min_step P = 0 then some_sign * 0.0001 else some_sign * min_step P) deltas))"

text \<open>\<open>for ch, delta in deltas.items()\<close>: the step size limits.\<close>

definition limit_step :: "gd_params \<Rightarrow> real \<Rightarrow> real \<Rightarrow> real" where
  "limit_step P some_sign delta =
     (if \<bar>delta\<bar> < min_step P \<and> min_step P > 0 then some_sign * min_step P
      else if \<bar>delta\<bar> > max_step P then sign delta * max_step P
      else delta)"

definition limit_steps :: "gd_params \<Rightarrow> real \<Rightarrow> real dict \<Rightarrow> real dict" where
  "limit_steps P some_sign deltas = map (\<lambda>(ch, delta). (ch, limit_step P some_sign delta)) deltas"

text \<open>\<open>for ch in pixels.keys()\<close>: the new setpoints.\<close>

fun step_loop ::
  "bool option \<Rightarrow> chan list \<Rightarrow> real dict \<Rightarrow> real dict \<Rightarrow> error + real dict" where
  "step_loop lock [] deltas next_voltages = Inr next_voltages"
| "step_loop lock (ch # chs) deltas next_voltages =
     (case getitem next_voltages ch of Inl e \<Rightarrow> Inl e | Inr nv \<Rightarrow>
     (case getitem deltas ch of Inl e \<Rightarrow> Inl e | Inr d \<Rightarrow>
     (case lock of None \<Rightarrow> Inl AttributeError | Some l \<Rightarrow>
        step_loop lock chs deltas (AList.update ch (lock_clamp l (nv + d)) next_voltages))))"

text \<open>The body of the main loop.\<close>

definition gd_step :: "env \<Rightarrow> gd_params \<Rightarrow> gd_vars \<Rightarrow> mppt \<Rightarrow> mppt \<times> (error + gd_vars)" where
  "gd_step env P g s =
     (let some_sign = (if coin env (gv_i g) then 1 else - 1);
          s1 = emit (ConfigureDC (gv_next g)) s
      in case time_sleep (delay_ms P / 1000) s1 of
           (s2, Inl e) \<Rightarrow> (s2, Inl e)
         | (s2, Inr _) \<Rightarrow>
        (case measure_and_check env (gv_pixels g) s2 of
           (s3, Inl e) \<Rightarrow> (s3, Inl e)
         | (s3, Inr (data, pixels')) \<Rightarrow>
        (let m' = take 20 (data # gv_m g)
         in case compute_grad m' of Inl e \<Rightarrow> (s3, Inl e) | Inr gradients \<Rightarrow>
           (case momentum_loop P some_sign gradients (gv_deltas g) of
              Inl e \<Rightarrow> (s3, Inl e)
            | Inr deltas1 \<Rightarrow>
           (let deltas2 = limit_steps P some_sign deltas1
            in case step_loop (voltage_lock s3) (keys pixels') deltas2 (gv_next g) of
                 Inl e \<Rightarrow> (s3, Inl e)
               | Inr next' \<Rightarrow>
              (case read_run_time env s3 of
                 (s4, Inl e) \<Rightarrow> (s4, Inl e)
               | (s4, Inr rt) \<Rightarrow>
                   (s4, Inr \<lparr>gv_pixels = pixels', gv_m = m', gv_deltas = deltas2,
                             gv_next = next', gv_run_time = rt, gv_i = Suc (gv_i g)\<rparr>)))))))"

text \<open>\<open>while (not self.abort) and (run_time < duration) and (len(pixels) > 0)\<close>\<close>

fun gd_loop ::
  "nat \<Rightarrow> env \<Rightarrow> gd_params \<Rightarrow> gd_vars \<Rightarrow> mppt \<Rightarrow> mppt \<times> (error + gd_vars) option" where
  "gd_loop 0 env P g s = (s, None)"
| "gd_loop (Suc n) env P g s =
     (if \<not> abort_sig env (gv_i g) \<and> gv_run_time g < duration P \<and> gv_pixels g \<noteq> [] then
        (case gd_step env P g s of
           (s', Inl e) \<Rightarrow> (s', Some (Inl e))
         | (s', Inr g') \<Rightarrow> gd_loop n env P g' s')
      else (s, Some (Inr g)))"

text \<open>The bootstrap measurement and the seeding of \<open>deltas\<close> and \<open>next_voltages\<close>.\<close>

definition gd_seed :: "env \<Rightarrow> gd_params \<Rightarrow> pixel dict \<Rightarrow> mppt \<Rightarrow> mppt \<times> (error + gd_vars)" where
  "gd_seed env P pixels s =
     (case measure_and_check env pixels s of
        (s1, Inl e) \<Rightarrow> (s1, Inl e)
      | (s1, Inr (data, pixels')) \<Rightarrow>
     (case read_run_time env s1 of
        (s2, Inl e) \<Rightarrow> (s2, Inl e)
      | (s2, Inr rt) \<Rightarrow>
     (let deltas = map (\<lambda>ch. (ch, delta_zero P)) (keys pixels')
      in case seed_loop (voltage_lock s2) (keys pixels') (Vmpp s2) deltas [] of
           Inl e \<Rightarrow> (s2, Inl e)
         | Inr next_voltages \<Rightarrow>
             (s2, Inr \<lparr>gv_pixels = pixels', gv_m = [data], gv_deltas = deltas,
                       gv_next = next_voltages, gv_run_time = rt, gv_i = 0\<rparr>))))"

text \<open>\<open>for ch, ch_data in m[0].items()\<close>: the most recent readings become the stored
  maximum power point.\<close>

fun finish_loop :: "(chan \<times> meas list) list \<Rightarrow> mppt \<Rightarrow> mppt \<times> (error + unit)" where
  "finish_loop [] s = (s, Inr ())"
| "finish_loop ((ch, ch_data) # rest) s =
     (case ch_data of
        [] \<Rightarrow> (s, Inl IndexError)
      | r # _ \<Rightarrow>
          finish_loop rest
            (s\<lparr>Vmpp := AList.update ch (m_v r) (Vmpp s),
               Impp := AList.update ch (m_i r) (Impp s)\<rparr>))"

definition gd_finish :: "gd_vars \<Rightarrow> mppt \<Rightarrow> mppt \<times> (error + unit)" where
  "gd_finish g s = (case gv_m g of [] \<Rightarrow> (s, Inl IndexError) | m0 # _ \<Rightarrow> finish_loop m0 s)"

text \<open>
  The whole method. In Snaith mode the duration loses the two soak times, and the log
  line of the pre-soak formats \<open>start_voltage\<close> with \<open>:0.2f\<close>, which raises \<open>TypeError\<close>
  for a dictionary. The result is the deque \<open>q\<close> together with the final content of the
  caller's \<open>pixels\<close>. The fuel bounds the iterations of each of the three loops.
\<close>

definition snaith_pre_soak_t :: real where
  "snaith_pre_soak_t = 15"

definition snaith_post_soak_t :: real where
  "snaith_post_soak_t = 3"

definition gd_main ::
  "nat \<Rightarrow> env \<Rightarrow> gd_params \<Rightarrow> bool \<Rightarrow> pixel dict \<Rightarrow> chan list \<Rightarrow> mppt
     \<Rightarrow> mppt \<times> (error + chan list \<times> pixel dict) option" where
  "gd_main fuel env P snaith_mode pixels q s =
     (case gd_seed env P pixels s of
        (s1, Inl e) \<Rightarrow> (s1, Some (Inl e))
      | (s1, Inr g0) \<Rightarrow>
     (case gd_loop fuel env P g0 s1 of
        (s2, None) \<Rightarrow> (s2, None)
      | (s2, Some (Inl e)) \<Rightarrow> (s2, Some (Inl e))
      | (s2, Some (Inr g)) \<Rightarrow>
     (case (if snaith_mode
            then soak fuel env False (delay_ms P) snaith_post_soak_t (gv_pixels g) q s2
            else (s2, Some (Inr (gv_pixels g, q)))) of
        (s3, None) \<Rightarrow> (s3, None)
      | (s3, Some (Inl e)) \<Rightarrow> (s3, Some (Inl e))
      | (s3, Some (Inr (pixels', q'))) \<Rightarrow>
     (case gd_finish g s3 of
        (s4, Inl e) \<Rightarrow> (s4, Some (Inl e))
      | (s4, Inr _) \<Rightarrow> (s4, Some (Inr (q', pixels')))))))"

definition gradient_descent ::
  "nat \<Rightarrow> env \<Rightarrow> real \<Rightarrow> pyval \<Rightarrow> real \<Rightarrow> real \<Rightarrow> real \<Rightarrow> bool \<Rightarrow> real \<Rightarrow> real \<Rightarrow> real \<Rightarrow> real
     \<Rightarrow> pixel dict \<Rightarrow> mppt \<Rightarrow> mppt \<times> (error + chan list \<times> pixel dict) option" where
  "gradient_descent fuel env dur start_voltage alph min_st NPLC snaith_mode delay max_st
      moment delta_z pixels s =
     (let s1 = (if NPLC \<noteq> - 1 then emit (SetNplc NPLC) s else s)
      in if snaith_mode then
           (let P = \<lparr>duration = dur - snaith_pre_soak_t - snaith_post_soak_t, alpha = alph,
                     min_step = min_st, delay_ms = delay, max_step = max_st,
                     momentum = moment, delta_zero = delta_z\<rparr>
            in case start_voltage of
                 PyDict _ \<Rightarrow> (s1, Some (Inl TypeError))
               | PyFloat _ \<Rightarrow>
                   (case soak fuel env True delay snaith_pre_soak_t pixels [] s1 of
                      (s2, None) \<Rightarrow> (s2, None)
                    | (s2, Some (Inl e)) \<Rightarrow> (s2, Some (Inl e))
                    | (s2, Some (Inr (pixels', q))) \<Rightarrow> gd_main fuel env P True pixels' q s2))
         else
           gd_main fuel env
             \<lparr>duration = dur, alpha = alph, min_step = min_st, delay_ms = delay,
              max_step = max_st, momentum = moment, delta_zero = delta_z\<rparr>
             False pixels [] s1)"

subsection \<open>\<open>launch_tracker\<close>\<close>

text \<open>\<open>extra.split(sep="://", maxsplit=1)\<close> and \<open>params.split(":")\<close>\<close>

fun split_once :: "string \<Rightarrow> string \<Rightarrow> string \<Rightarrow> string list" where
  "split_once sep acc [] = [rev acc]"
| "split_once sep acc (c # cs) =
     (if take (length sep) (c # cs) = sep then [rev acc, drop (length sep) (c # cs)]
      else split_once sep (c # acc) cs)"

fun split_char :: "char \<Rightarrow> string \<Rightarrow> string list" where
  "split_char c [] = [[]]"
| "split_char c (x # xs) =
     (if x = c then [] # split_char c xs
      else (case split_char c xs of w # ws \<Rightarrow> (x # w) # ws | [] \<Rightarrow> [[x]]))"

text \<open>\<open>[float(f) for f in params]\<close>\<close>

fun floats :: "(string \<Rightarrow> real option) \<Rightarrow> string list \<Rightarrow> error + real list" where
  "floats conv [] = Inr []"
| "floats conv (f # fs) =
     (case conv f of
        None \<Rightarrow> Inl (ValueError FloatConv)
      | Some x \<Rightarrow> (case floats conv fs of Inl e \<Rightarrow> Inl e | Inr xs \<Rightarrow> Inr (x # xs)))"

text \<open>\<open>for ch, ch_data in sorted(ssvocs.items()): self.Voc[ch] = ch_data[-1][0]\<close>\<close>

fun voc_loop :: "(chan \<times> meas list) list \<Rightarrow> mppt \<Rightarrow> mppt \<times> (error + unit)" where
  "voc_loop [] s = (s, Inr ())"
| "voc_loop ((ch, ch_data) # rest) s =
     (if ch_data = [] then (s, Inl IndexError)
      else voc_loop rest (s\<lparr>Voc := AList.update ch (m_v (last ch_data)) (Voc s)\<rparr>))"

definition algo_warning :: "string \<Rightarrow> string" where
  "algo_warning algo =
     ''WARNING: MPPT algorithm '' @ algo @
     '' not understood, not doing max power point tracking''"

text \<open>
  The first part of \<open>launch_tracker\<close>, up to the quadrant lock: the timer is started,
  \<open>i_limit\<close> is clamped, the open-circuit voltage is probed if none is known, the maximum
  power point voltage is seeded, the setpoints are applied and the outputs enabled.
  The result is \<open>ssvocs\<close>.
\<close>

definition bootstrap ::
  "env \<Rightarrow> real \<Rightarrow> real \<Rightarrow> pixel dict \<Rightarrow> mppt \<Rightarrow> mppt \<times> (error + meas list dict)" where
  "bootstrap env NPLC i_limit pixels s =
     (let (now, s1) = time_time env s;
          s2 = s1\<lparr>t0 := Some now\<rparr>;
          i_limit' = (if \<bar>i_limit\<bar> > \<bar>absolute_current_limit s2\<bar>
                      then \<bar>absolute_current_limit s2\<bar> else i_limit);
          s3 = (if NPLC \<noteq> - 1 then emit (SetNplc NPLC) s2 else s2);
          channels = keys pixels
      in case (if Voc s3 = [] then
                 (let s4 = emit (EnableOutput False channels) s3;
                      (ssvocs, s5) = sm_measure env channels s4
                  in case voc_loop (sorted_items ssvocs) s5 of
                       (s6, Inl e) \<Rightarrow> (s6, Inl e)
                     | (s6, Inr _) \<Rightarrow> (s6, Inr ssvocs))
               else (s3, Inr [])) of
           (s6, Inl e) \<Rightarrow> (s6, Inl e)
         | (s6, Inr ssvocs) \<Rightarrow>
             (let s7 = (if Vmpp s6 = [] then
                          s6\<lparr>Vmpp := fold (\<lambda>(ch, voc). AList.update ch (0.7 * voc))
                                           (sorted_items (Voc s6)) (Vmpp s6)\<rparr>
                        else s6);
                  values = fold (\<lambda>(ch, vmp). AList.update ch vmp) (sorted_items (Vmpp s7)) [];
                  s8 = emit (ConfigureDC values) s7;
                  s9 = emit (EnableOutput True channels) s8
              in case Voc s9 of
                   [] \<Rightarrow> (s9, Inl IndexError)
                 | (_, voc) # _ \<Rightarrow> (s9\<lparr>voltage_lock := Some (voc \<ge> 0)\<rparr>, Inr ssvocs)))"

text \<open>The result of \<open>launch_tracker\<close> is the pair \<open>(m, ssvocs)\<close>, where \<open>m\<close> is the list
  of the deques returned by the tracking algorithm.\<close>

type_synonym launch_result = "chan list list \<times> meas list dict"

definition wrap_gd ::
  "meas list dict \<Rightarrow> mppt \<times> (error + chan list \<times> pixel dict) option
     \<Rightarrow> mppt \<times> (error + launch_result) option" where
  "wrap_gd ssvocs r =
     (case r of
        (s, None) \<Rightarrow> (s, None)
      | (s, Some (Inl e)) \<Rightarrow> (s, Some (Inl e))
      | (s, Some (Inr (q, pixels'))) \<Rightarrow> (s, Some (Inr ([q], ssvocs))))"

text \<open>The second part: the algorithm string is taken apart and the algorithm run.\<close>

definition dispatch ::
  "nat \<Rightarrow> env \<Rightarrow> real \<Rightarrow> real \<Rightarrow> string \<Rightarrow> pixel dict \<Rightarrow> meas list dict \<Rightarrow> mppt
     \<Rightarrow> mppt \<times> (error + launch_result) option" where
  "dispatch fuel env dur NPLC extra pixels ssvocs s =
     (case split_once ''://'' [] extra of
        algo # params # _ \<Rightarrow>
          if algo \<in> set [''gd'', ''snaith''] then
            (let do_snaith = (algo = ''snaith'')
             in if length params = 0 then
                  wrap_gd ssvocs
                    (gradient_descent fuel env dur (PyDict (Vmpp s)) 10 0.002 NPLC do_snaith
                       0 0.1 0.1 0.01 pixels s)
                else
                  (let ps = split_char (CHR '':'') params
                   in if length ps \<noteq> 7 then (s, Some (Inl (ValueError Usage)))
                      else (case floats (to_float env) ps of
                              Inl e \<Rightarrow> (s, Some (Inl e))
                            | Inr fs \<Rightarrow>
                                wrap_gd ssvocs
                                  (gradient_descent fuel env dur (PyDict (Vmpp s))
                                     (fs ! 0) (fs ! 1) (fs ! 2) do_snaith (fs ! 3)
                                     (fs ! 4) (fs ! 5) (fs ! 6) pixels s))))
          else (emit (LogInfo (algo_warning algo)) s, Some (Inr ([], ssvocs)))
      | _ \<Rightarrow> (s, Some (Inl IndexError)))"

text \<open>The argument \<open>voc_compliance\<close> is never read. The callback is not an argument of
  the model: each of its calls is the event \<open>Callback\<close>.\<close>

definition launch_tracker ::
  "nat \<Rightarrow> env \<Rightarrow> real \<Rightarrow> real \<Rightarrow> real \<Rightarrow> real \<Rightarrow> string \<Rightarrow> pixel dict \<Rightarrow> mppt
     \<Rightarrow> mppt \<times> (error + launch_result) option" where
  "launch_tracker fuel env dur NPLC voc_compliance i_limit extra pixels s =
     (case bootstrap env NPLC i_limit pixels s of
        (s1, Inl e) \<Rightarrow> (s1, Some (Inl e))
      | (s1, Inr ssvocs) \<Rightarrow> dispatch fuel env dur NPLC extra pixels ssvocs s1)"

subsection \<open>Test doubles\<close>

text \<open>
  A deterministic source-measure unit for the worked runs: it answers every requested
  channel with one record \<open>(v, i, t, status)\<close>, where \<open>(v, i, status)\<close> is chosen by
  \<open>f\<close> from the number of events so far and the channel, and \<open>t\<close> is that number.
\<close>

definition stub_smu :: "(nat \<Rightarrow> chan \<Rightarrow> real \<times> real \<times> int) \<Rightarrow> event list \<Rightarrow> meas list dict" where
  "stub_smu f h =
     (let n = length h;
          answer = (\<lambda>c. case f n c of (v, i, st) \<Rightarrow> (c, [(v, i, real n, st)]))
      in case rev h of
           Measure cs # _ \<Rightarrow> map answer cs
         | MeasureOne c # _ \<Rightarrow> [answer c]
         | _ \<Rightarrow> [])"

text \<open>A device that always reads 0.5 V and -10 mA with a clean status.\<close>

definition quiet :: "nat \<Rightarrow> chan \<Rightarrow> real \<times> real \<times> int" where
  "quiet n c = (1 / 2, - (1 / 100), 0)"

definition table_float :: "string \<Rightarrow> real option" where
  "table_float =
     map_of [(''10'', 10), (''0.002'', 2 / 1000), (''-1'', - 1), (''0'', 0),
             (''0.1'', 1 / 10), (''0.01'', 1 / 100), (''1'', 1), (''2'', 2), (''-5'', - 5),
             (''-0.01'', - (1 / 100))]"

text \<open>The clock advances by one second per reading; nobody aborts; the coin shows 1.\<close>

definition sim_env :: "(nat \<Rightarrow> chan \<Rightarrow> real \<times> real \<times> int) \<Rightarrow> env" where
  "sim_env f = \<lparr>clock = real, smu_measure = stub_smu f, abort_sig = (\<lambda>_. False),
                coin = (\<lambda>_. True), to_float = table_float\<rparr>"

definition one_pixel :: "pixel dict" where
  "one_pixel = [(0, \<lparr>device_label = ''A''\<rparr>)]"

definition fresh :: mppt where
  "fresh = init (1 / 10) False"

text \<open>The state of a fresh tracker after the bootstrap on the quiet device.\<close>

definition quiet_booted :: mppt where
  "quiet_booted =
     \<lparr>Voc = [(0, 1 / 2)], Isc = [], Mmpp = [], Vmpp = [(0, 7 / 20)], Impp = [], Pmax = [],
      absolute_current_limit = 1 / 10, t0 = Some 0, voltage_lock = Some True,
      has_mqttc = False,
      events = [EnableOutput False [0], Measure [0], ConfigureDC [(0, 7 / 20)],
                EnableOutput True [0]],
      ticks = 1\<rparr>"

definition quiet_ssvocs :: "meas list dict" where
  "quiet_ssvocs = [(0, [(1 / 2, - (1 / 100), 2, 0)])]"

text \<open>Sweeps for the curve inspector: a light sweep through the generation quadrant,
  a dark sweep that never enters it, and single-point curves of 1.2 mW and 0.8 mW, once
  generated (\<open>V\<cdot>I < 0\<close>) and once dissipated (\<open>V\<cdot>I > 0\<close>).\<close>

definition light_sweep :: "meas list" where
  "light_sweep = [(0, 2 / 100, 0, 0), (3 / 10, - (18 / 1000), 1, 0),
                  (5 / 10, - (1 / 100), 2, 0), (6 / 10, 1 / 1000, 3, 0)]"

definition dark_sweep :: "meas list" where
  "dark_sweep = [(1 / 10, 1 / 1000, 0, 0), (2 / 10, 4 / 1000, 1, 0)]"

definition strong_curve :: "meas list dict" where
  "strong_curve = [(0, [(12 / 1000, - (1 / 10), 0, 0)])]"

definition weak_curve :: "meas list dict" where
  "weak_curve = [(0, [(8 / 1000, - (1 / 10), 1, 0)])]"

definition strong_loss :: "meas list dict" where
  "strong_loss = [(0, [(12 / 1000, 1 / 10, 0, 0)])]"

definition weak_loss :: "meas list dict" where
  "weak_loss = [(0, [(8 / 1000, 1 / 10, 1, 0)])]"

text \<open>The tracker after the generated 1.2 mW curve was registered.\<close>

definition strong_stored :: mppt where
  "strong_stored = fresh\<lparr>Mmpp := [(0, 12 / 1000, - (1 / 10), 0)], Vmpp := [(0, 12 / 1000)],
                          Impp := [(0, - (1 / 10))], Pmax := [(0, 12 / 10000)]\<rparr>"

text \<open>A device that reads 0 V and 0 A, one whose voltage reading rises with every event,
  and one that reports the status \<open>CURRENT_OVER_THRESHOLD\<close> on channel 0 in the first
  measurement of the main loop.\<close>

definition dead :: "nat \<Rightarrow> chan \<Rightarrow> real \<times> real \<times> int" where
  "dead n c = (0, 0, 0)"

definition ramp :: "nat \<Rightarrow> chan \<Rightarrow> real \<times> real \<times> int" where
  "ramp n c = (1 / 2 + real n / 100, - (1 / 100), 0)"

definition short_on_0 :: "nat \<Rightarrow> chan \<Rightarrow> real \<times> real \<times> int" where
  "short_on_0 n c = (1 / 2, - (1 / 100), if c = 0 \<and> n = 9 then 1 else 0)"

definition two_pixels :: "pixel dict" where
  "two_pixels = [(0, \<lparr>device_label = ''A''\<rparr>), (2, \<lparr>device_label = ''B''\<rparr>)]"

text \<open>The default keyword arguments of \<open>gradient_descent\<close>.\<close>

definition default_params :: "real \<Rightarrow> gd_params" where
  "default_params dur = \<lparr>duration = dur, alpha = 10, min_step = 2 / 1000, delay_ms = 0,
      max_step = 1 / 10, momentum = 1 / 10, delta_zero = 1 / 100\<rparr>"

text \<open>The state of a fresh tracker after the bootstrap on the dead device.\<close>

definition dead_booted :: mppt where
  "dead_booted =
     \<lparr>Voc = [(0, 0)], Isc = [], Mmpp = [], Vmpp = [(0, 0)], Impp = [], Pmax = [],
      absolute_current_limit = 1 / 10, t0 = Some 0, voltage_lock = Some True,
      has_mqttc = False,
      events = [EnableOutput False [0], Measure [0], ConfigureDC [(0, 0)],
                EnableOutput True [0]],
      ticks = 1\<rparr>"

definition dead_ssvocs :: "meas list dict" where
  "dead_ssvocs = [(0, [(0, 0, 2, 0)])]"

text \<open>State and loop variables before and after the first iteration of the main loop on
  the rising device.\<close>

definition ramp_s0 :: mppt where
  "ramp_s0 =
     \<lparr>Voc = [(0, 13 / 25)], Isc = [], Mmpp = [], Vmpp = [(0, 91 / 250)], Impp = [], Pmax = [],
      absolute_current_limit = 1 / 10, t0 = Some 0, voltage_lock = Some True,
      has_mqttc = False,
      events = [EnableOutput False [0], Measure [0], ConfigureDC [(0, 91 / 250)],
                EnableOutput True [0], Measure [0], Callback [(0, 11 / 20, - (1 / 100), 5, 0)]],
      ticks = 2\<rparr>"

definition ramp_g0 :: gd_vars where
  "ramp_g0 =
     \<lparr>gv_pixels = one_pixel, gv_m = [[(0, [(11 / 20, - (1 / 100), 5, 0)])]],
      gv_deltas = [(0, 1 / 100)], gv_next = [(0, 187 / 500)], gv_run_time = 1, gv_i = 0\<rparr>"

definition ramp_s1 :: mppt where
  "ramp_s1 = ramp_s0\<lparr>events := events ramp_s0 @
       [ConfigureDC [(0, 187 / 500)], Sleep 0, Measure [0],
        Callback [(0, 59 / 100, - (1 / 100), 9, 0)]], ticks := 3\<rparr>"

definition ramp_g1 :: gd_vars where
  "ramp_g1 =
     \<lparr>gv_pixels = one_pixel,
      gv_m = [[(0, [(59 / 100, - (1 / 100), 9, 0)])], [(0, [(11 / 20, - (1 / 100), 5, 0)])]],
      gv_deltas = [(0, 13 / 500)], gv_next = [(0, 2 / 5)], gv_run_time = 2, gv_i = 1\<rparr>"

subsection \<open>Notions used in the statements and proofs\<close>

text \<open>The value that \<open>compute_grad\<close> stores for a channel, from the first records of the
  two newest measurements, and the step that the momentum update derives from it.\<close>

definition grad_value :: "meas \<Rightarrow> meas \<Rightarrow> real option" where
  "grad_value r0 r1 = (if m_v r0 = m_v r1 then None
     else Some ((objective r0 - objective r1) / (m_v r0 - m_v r1) / (m_t r0 - m_t r1)))"

definition momentum_value :: "gd_params \<Rightarrow> real \<Rightarrow> real option \<Rightarrow> real \<Rightarrow> real" where
  "momentum_value P sg g dprev =
     (case g of
        Some gradient \<Rightarrow> - alpha P * gradient + momentum P * dprev
      | None \<Rightarrow> sg * (if min_step P = 0 then 1 / 10000 else min_step P))"

text \<open>\<open>grows Q s s'\<close>: the state \<open>s'\<close> extends the events of \<open>s\<close> by events that all
  satisfy \<open>Q\<close>, and has the same quadrant lock. \<open>silent\<close> events neither set a voltage
  nor switch an output.\<close>

definition grows :: "(event \<Rightarrow> bool) \<Rightarrow> mppt \<Rightarrow> mppt \<Rightarrow> bool" where
  "grows Q s s' =
     (\<exists>es. events s' = events s @ es \<and> list_all Q es \<and> voltage_lock s' = voltage_lock s)"

definition silent :: "event \<Rightarrow> bool" where
  "silent e = (case e of ConfigureDC _ \<Rightarrow> False | EnableOutput _ _ \<Rightarrow> False | _ \<Rightarrow> True)"

text \<open>A setpoint that is on the locked side of zero (zero included), and an event whose
  setpoints all are.\<close>

definition lock_ok :: "bool \<Rightarrow> real \<Rightarrow> bool" where
  "lock_ok l v = (if l then 0 \<le> v else v \<le> 0)"

definition respects_lock :: "bool \<Rightarrow> event \<Rightarrow> bool" where
  "respects_lock l e = (case e of ConfigureDC d \<Rightarrow> list_all (\<lambda>(c, v). lock_ok l v) d | _ \<Rightarrow> True)"

text \<open>Events that do not disable more than one output at once, and events that disable
  none.\<close>

definition single_disable :: "event \<Rightarrow> bool" where
  "single_disable e = (case e of EnableOutput b chs \<Rightarrow> b \<or> length chs = 1 | _ \<Rightarrow> True)"

definition no_disable :: "event \<Rightarrow> bool" where
  "no_disable e = (case e of EnableOutput b chs \<Rightarrow> b | _ \<Rightarrow> True)"

text \<open>The two errors of the parameter validation in \<open>launch_tracker\<close>: the usage message
  and the failure of \<open>float\<close>.\<close>

definition config_error :: "error \<Rightarrow> bool" where
  "config_error e = (e = ValueError Usage \<or> e = ValueError FloatConv)"

section \<open>Properties\<close>

subsection \<open>Worked runs\<close>

lemma bootstrap_quiet:
  "bootstrap (sim_env quiet) (- 1) (1 / 10) one_pixel fresh = (quiet_booted, Inr quiet_ssvocs)"
  by code_simp

lemma bootstrap_dead:
  "bootstrap (sim_env dead) (- 1) (1 / 10) one_pixel fresh = (dead_booted, Inr dead_ssvocs)"
  by code_simp

lemma dead_default_run:
  "launch_tracker 10 (sim_env dead) 2 (- 1) 3 (1 / 10) ''gd://'' one_pixel fresh
   = (dead_booted\<lparr>Vmpp := [(0, 0)], Impp := [(0, 0)],
        events := [EnableOutput False [0], Measure [0], ConfigureDC [(0, 0)],
                   EnableOutput True [0], Measure [0], Callback [(0, 0, 0, 5, 0)],
                   ConfigureDC [(0, 1 / 100)], Sleep 0, Measure [0],
                   Callback [(0, 0, 0, 9, 0)]],
        ticks := 3\<rparr>,
      Some (Inr ([[]], dead_ssvocs)))"
  by code_simp

lemma dead_backward_run:
  "launch_tracker 10 (sim_env dead) 2 (- 1) 3 (1 / 10) ''gd://10:0.002:-1:0:0.1:0.1:-0.01'' one_pixel fresh
   = (dead_booted\<lparr>Vmpp := [(0, 0)], Impp := [(0, 0)],
        events := [EnableOutput False [0], Measure [0], ConfigureDC [(0, 0)],
                   EnableOutput True [0], Measure [0], Callback [(0, 0, 0, 5, 0)],
                   ConfigureDC [(0, 1 / 10000)], Sleep 0, Measure [0],
                   Callback [(0, 0, 0, 9, 0)]],
        ticks := 3\<rparr>,
      Some (Inr ([[]], dead_ssvocs)))"
  by code_simp

lemma dead_zero_delta_run:
  "launch_tracker 10 (sim_env dead) 2 (- 1) 3 (1 / 10) ''gd://10:0.002:-1:0:0.1:0.1:0'' one_pixel fresh
   = (dead_booted\<lparr>Vmpp := [(0, 0)], Impp := [(0, 0)],
        events := [EnableOutput False [0], Measure [0], ConfigureDC [(0, 0)],
                   EnableOutput True [0], Measure [0], Callback [(0, 0, 0, 5, 0)],
                   ConfigureDC [(0, 0)], Sleep 0, Measure [0],
                   Callback [(0, 0, 0, 9, 0)]],
        ticks := 3\<rparr>,
      Some (Inr ([[]], dead_ssvocs)))"
  by code_simp

lemma quiet_default_run:
  "launch_tracker 10 (sim_env quiet) 2 (- 1) 3 (1 / 10) ''gd://'' one_pixel fresh
   = (quiet_booted\<lparr>Vmpp := [(0, 1 / 2)], Impp := [(0, - (1 / 100))],
        events := [EnableOutput False [0], Measure [0], ConfigureDC [(0, 7 / 20)],
                   EnableOutput True [0], Measure [0], Callback [(0, 1 / 2, - (1 / 100), 5, 0)],
                   ConfigureDC [(0, 9 / 25)], Sleep 0, Measure [0],
                   Callback [(0, 1 / 2, - (1 / 100), 9, 0)]],
        ticks := 3\<rparr>,
      Some (Inr ([[]], quiet_ssvocs)))"
  by code_simp

lemma short_run:
  "launch_tracker 10 (sim_env short_on_0) 3 (- 1) 3 (1 / 10) ''gd://'' two_pixels fresh
   = (\<lparr>Voc = [(0, 1 / 2), (2, 1 / 2)], Isc = [], Mmpp = [],
       Vmpp = [(0, 7 / 20), (2, 1 / 2)], Impp = [(2, - (1 / 100))], Pmax = [],
       absolute_current_limit = 1 / 10, t0 = Some 0, voltage_lock = Some True,
       has_mqttc = False,
       events =
         [EnableOutput False [0, 2], Measure [0, 2],
          ConfigureDC [(0, 7 / 20), (2, 7 / 20)], EnableOutput True [0, 2],
          Measure [0, 2],
          Callback [(0, 1 / 2, - (1 / 100), 5, 0), (2, 1 / 2, - (1 / 100), 5, 0)],
          ConfigureDC [(0, 9 / 25), (2, 9 / 25)], Sleep 0, Measure [0, 2],
          EnableOutput False [0], Warn (warn_message ''A''), LogInfo (warn_message ''A''),
          Callback [(2, 1 / 2, - (1 / 100), 9, 0)],
          ConfigureDC [(0, 9 / 25), (2, 181 / 500)], Sleep 0, Measure [2],
          Callback [(2, 1 / 2, - (1 / 100), 16, 0)]],
       ticks = 4\<rparr>,
      Some (Inr ([[]], [(0, [(1 / 2, - (1 / 100), 2, 0)]), (2, [(1 / 2, - (1 / 100), 2, 0)])])))"
  by code_simp

lemma snaith_run:
  "launch_tracker 10 (sim_env quiet) 30 (- 1) 3 (1 / 10) ''snaith://'' one_pixel fresh
   = (quiet_booted, Some (Inl TypeError))"
  by code_simp

lemma bad_params_run:
  "launch_tracker 10 (sim_env quiet) 30 (- 1) 3 (1 / 10) ''gd://1:2'' one_pixel fresh
   = (quiet_booted, Some (Inl (ValueError Usage)))"
  by code_simp

lemma negative_delay_run:
  "launch_tracker 10 (sim_env quiet) 30 (- 1) 3 (1 / 10) ''gd://10:0.002:-1:-5:0.1:0.1:0.01''
      one_pixel fresh
   = (quiet_booted\<lparr>events := events quiet_booted @
          [Measure [0], Callback [(0, 1 / 2, - (1 / 100), 5, 0)], ConfigureDC [(0, 9 / 25)]],
        ticks := 2\<rparr>,
      Some (Inl (ValueError NegativeSleep)))"
  by code_simp

lemma ramp_seed_run:
  "gd_seed (sim_env ramp) (default_params 30) one_pixel
     (fst (bootstrap (sim_env ramp) (- 1) (1 / 10) one_pixel fresh)) = (ramp_s0, Inr ramp_g0)"
  by code_simp

lemma ramp_step_run:
  "gd_step (sim_env ramp) (default_params 30) ramp_g0 ramp_s0 = (ramp_s1, Inr ramp_g1)"
  by code_simp

lemma stub_smu_rows:
  assumes "(c, rows) \<in> set (stub_smu f h)"
  shows "\<exists>v i st. rows = [(v, i, real (length h), st)] \<and> f (length h) c = (v, i, st)"
proof (cases "rev h")
  case Nil
  with assms show ?thesis by (simp add: stub_smu_def)
next
  case (Cons e es)
  with assms show ?thesis
    by (cases e) (auto simp: stub_smu_def Let_def split: prod.splits)
qed

lemma quiet_clean:
  "\<forall>h c rows r. (c, rows) \<in> set (smu_measure (sim_env quiet) h) \<longrightarrow> r \<in> set rows
      \<longrightarrow> m_status r \<noteq> 1 \<and> m_status r \<noteq> 2"
proof (intro allI impI)
  fix h c rows r
  assume "(c, rows) \<in> set (smu_measure (sim_env quiet) h)" and r: "r \<in> set rows"
  then have "(c, rows) \<in> set (stub_smu quiet h)" by (simp add: sim_env_def)
  from stub_smu_rows [OF this] r show "m_status r \<noteq> 1 \<and> m_status r \<noteq> 2"
    by (auto simp: quiet_def m_status_def)
qed

subsection \<open>The curve inspector\<close>

lemma argmax_aux_correct:
  assumes "ys = pre @ xs" "length pre = i" "best < i" "bv = ys ! best"
    "\<forall>j<i. ys ! j \<le> bv" "\<forall>j<best. ys ! j < bv"
  shows "argmax_aux xs i best bv < length ys
       \<and> (\<forall>j<length ys. ys ! j \<le> ys ! argmax_aux xs i best bv)
       \<and> (\<forall>j<argmax_aux xs i best bv. ys ! j < ys ! argmax_aux xs i best bv)"
  using assms
proof (induction xs arbitrary: pre i best bv)
  case Nil
  then show ?case by auto
next
  case (Cons x xs)
  have yi: "ys ! i = x" using Cons.prems(1,2) by (simp add: nth_append)
  have split: "ys = (pre @ [x]) @ xs" using Cons.prems(1) by simp
  have len: "length (pre @ [x]) = Suc i" using Cons.prems(2) by simp
  show ?case
  proof (cases "bv < x")
    case True
    have a: "\<forall>j<Suc i. ys ! j \<le> x"
      using Cons.prems(5) True yi by (auto simp: less_Suc_eq intro: less_imp_le order_trans)
    have b: "\<forall>j<i. ys ! j < x"
      using Cons.prems(5) True by (auto intro: le_less_trans)
    from Cons.IH [OF split len, of i x] a b yi True show ?thesis by simp
  next
    case False
    have a: "\<forall>j<Suc i. ys ! j \<le> bv"
      using Cons.prems(5) False yi by (auto simp: less_Suc_eq)
    from Cons.IH [OF split len, of best bv] a Cons.prems False show ?thesis by simp
  qed
qed

lemma argmax_Inr:
  assumes "argmax xs = Inr k"
  shows "k < length xs \<and> (\<forall>j<length xs. xs ! j \<le> xs ! k) \<and> (\<forall>j<k. xs ! j < xs ! k)"
proof (cases xs)
  case Nil
  with assms show ?thesis by (simp add: argmax_def)
next
  case (Cons x r)
  with assms have k: "k = argmax_aux r 1 0 x" by (simp add: argmax_def)
  have "argmax_aux r 1 0 x < length xs
       \<and> (\<forall>j<length xs. xs ! j \<le> xs ! argmax_aux r 1 0 x)
       \<and> (\<forall>j<argmax_aux r 1 0 x. xs ! j < xs ! argmax_aux r 1 0 x)"
    by (rule argmax_aux_correct [where pre = "[x]"]) (auto simp: Cons)
  with k show ?thesis by simp
qed

lemma argmax_Inl: "argmax xs = Inl e \<Longrightarrow> xs = []"
  by (cases xs) (auto simp: argmax_def)

lemma argmin_Inl: "argmin xs = Inl e \<Longrightarrow> xs = []"
  by (cases xs) (auto simp: argmin_def)

lemma register_ch_error: "register_ch light ch d s r = (s', Inl e) \<Longrightarrow> s' = s \<and> d = []"
  by (auto simp: register_ch_def Let_def split: sum.splits prod.splits if_splits option.splits
      dest: argmin_Inl argmax_Inl)

lemma register_ch_result:
  assumes "register_ch light ch d s (Pm, Vm, Jm, Xm) = (s', Inr (Pm', Vm', Jm', Xm'))"
  shows "\<exists>k. argmax (map (\<lambda>e. m_v e * m_i e * (- 1)) d) = Inr k \<and> k < length d
           \<and> Pm' = AList.update ch (- (m_v (d ! k) * m_i (d ! k))) Pm
           \<and> Vm' = AList.update ch (m_v (d ! k)) Vm
           \<and> Jm' = AList.update ch (m_i (d ! k)) Jm
           \<and> Xm' = AList.update ch k Xm"
proof -
  from assms obtain k where k: "argmax (map (\<lambda>e. m_v e * m_i e * (- 1)) d) = Inr k"
    by (auto simp: register_ch_def Let_def split: sum.splits)
  from argmax_Inr [OF k] have kl: "k < length d" by simp
  from assms k kl show ?thesis
    by (auto simp: register_ch_def Let_def split: sum.splits prod.splits if_splits option.splits)
qed

lemma register_ch_state:
  assumes "register_ch True ch d s r = (s', Inr r')"
    and "argmax (map (\<lambda>e. m_v e * m_i e * (- 1)) d) = Inr k"
  shows "if (case map_of (Pmax s) ch of Some old \<Rightarrow> old < - (m_v (d ! k) * m_i (d ! k)) | None \<Rightarrow> True)
         then Pmax s' = AList.update ch (- (m_v (d ! k) * m_i (d ! k))) (Pmax s)
            \<and> Vmpp s' = AList.update ch (m_v (d ! k)) (Vmpp s)
            \<and> Impp s' = AList.update ch (m_i (d ! k)) (Impp s)
            \<and> Mmpp s' = AList.update ch (m_v (d ! k), m_i (d ! k), m_t (d ! k)) (Mmpp s)
         else s' = s"
proof -
  from argmax_Inr [OF assms(2)] have kl: "k < length d" by simp
  from assms kl show ?thesis
    by (auto simp: register_ch_def Let_def split: sum.splits prod.splits if_splits option.splits)
qed

lemma register_ch_frame:
  assumes "register_ch light ch d s r = (s', res)" "c \<noteq> ch"
  shows "map_of (Pmax s') c = map_of (Pmax s) c \<and> map_of (Vmpp s') c = map_of (Vmpp s) c
       \<and> map_of (Impp s') c = map_of (Impp s) c \<and> map_of (Mmpp s') c = map_of (Mmpp s) c"
  using assms
  by (auto simp: register_ch_def Let_def update_conv' split: sum.splits prod.splits if_splits option.splits)

lemma register_ch_mono:
  assumes "register_ch light ch d s r = (s', res)" "map_of (Pmax s) c = Some old"
  shows "\<exists>new. map_of (Pmax s') c = Some new \<and> old \<le> new"
  using assms
  by (auto simp: register_ch_def Let_def update_conv' split: sum.splits prod.splits if_splits option.splits)

lemma register_loop_frame_state:
  assumes "register_loop light xs s r = (s', res)" "c \<notin> fst ` set xs"
  shows "map_of (Pmax s') c = map_of (Pmax s) c \<and> map_of (Vmpp s') c = map_of (Vmpp s) c
       \<and> map_of (Impp s') c = map_of (Impp s) c \<and> map_of (Mmpp s') c = map_of (Mmpp s) c"
  using assms
proof (induction xs arbitrary: s r)
  case Nil
  then show ?case by simp
next
  case (Cons x xs)
  obtain ch d where x: "x = (ch, d)" by (cases x)
  obtain s1 res1 where step: "register_ch light ch d s r = (s1, res1)" by (cases "register_ch light ch d s r")
  from Cons.prems(2) x have ne: "c \<noteq> ch" and rest: "c \<notin> fst ` set xs" by auto
  note fr = register_ch_frame [OF step ne]
  show ?case
  proof (cases res1)
    case (Inl e)
    with Cons.prems(1) x step have "s' = s1" by simp
    with fr show ?thesis by simp
  next
    case (Inr r1)
    with Cons.prems(1) x step have "register_loop light xs s1 r1 = (s', res)" by simp
    from Cons.IH [OF this rest] fr show ?thesis by simp
  qed
qed

lemma register_loop_mono:
  assumes "register_loop light xs s r = (s', res)" "map_of (Pmax s) c = Some old"
  shows "\<exists>new. map_of (Pmax s') c = Some new \<and> old \<le> new"
  using assms
proof (induction xs arbitrary: s r old)
  case Nil
  then show ?case by simp
next
  case (Cons x xs)
  obtain ch d where x: "x = (ch, d)" by (cases x)
  obtain s1 res1 where step: "register_ch light ch d s r = (s1, res1)" by (cases "register_ch light ch d s r")
  from register_ch_mono [OF step Cons.prems(2)]
  obtain mid where mid: "map_of (Pmax s1) c = Some mid" "old \<le> mid" by blast
  show ?case
  proof (cases res1)
    case (Inl e)
    with Cons.prems(1) x step have "s' = s1" by simp
    with mid show ?thesis by simp
  next
    case (Inr r1)
    with Cons.prems(1) x step have "register_loop light xs s1 r1 = (s', res)" by simp
    from Cons.IH [OF this mid(1)] obtain new where "map_of (Pmax s') c = Some new" "mid \<le> new" by blast
    with mid show ?thesis by auto
  qed
qed

lemma register_loop_frame_result:
  assumes "register_loop light xs s (Pm, Vm, Jm, Xm) = (s', Inr (Pm', Vm', Jm', Xm'))" "c \<notin> fst ` set xs"
  shows "map_of Pm' c = map_of Pm c \<and> map_of Vm' c = map_of Vm c
       \<and> map_of Jm' c = map_of Jm c \<and> map_of Xm' c = map_of Xm c"
  using assms
proof (induction xs arbitrary: s Pm Vm Jm Xm)
  case Nil
  then show ?case by simp
next
  case (Cons x xs)
  obtain ch d where x: "x = (ch, d)" by (cases x)
  from Cons.prems(2) x have ne: "c \<noteq> ch" and rest: "c \<notin> fst ` set xs" by auto
  from Cons.prems(1) x obtain s1 Pm1 Vm1 Jm1 Xm1 where
    step: "register_ch light ch d s (Pm, Vm, Jm, Xm) = (s1, Inr (Pm1, Vm1, Jm1, Xm1))"
    and loop: "register_loop light xs s1 (Pm1, Vm1, Jm1, Xm1) = (s', Inr (Pm', Vm', Jm', Xm'))"
    by (auto split: prod.splits sum.splits)
  from register_ch_result [OF step] ne
  have "map_of Pm1 c = map_of Pm c \<and> map_of Vm1 c = map_of Vm c
       \<and> map_of Jm1 c = map_of Jm c \<and> map_of Xm1 c = map_of Xm c"
    by (auto simp: update_conv')
  with Cons.IH [OF loop rest] show ?case by simp
qed

text \<open>What the loop stores and returns for a channel of the sweep.\<close>

lemma register_loop_entry:
  assumes "register_loop light xs s (Pm, Vm, Jm, Xm) = (s', Inr (Pm', Vm', Jm', Xm'))"
    and "distinct (map fst xs)" and "(ch, d) \<in> set xs"
  shows "\<exists>k. argmax (map (\<lambda>e. m_v e * m_i e * (- 1)) d) = Inr k \<and> k < length d
           \<and> map_of Pm' ch = Some (- (m_v (d ! k) * m_i (d ! k)))
           \<and> map_of Vm' ch = Some (m_v (d ! k))
           \<and> map_of Jm' ch = Some (m_i (d ! k))
           \<and> map_of Xm' ch = Some k
           \<and> (light \<longrightarrow>
               (if (case map_of (Pmax s) ch of Some old \<Rightarrow> old < - (m_v (d ! k) * m_i (d ! k)) | None \<Rightarrow> True)
                then map_of (Pmax s') ch = Some (- (m_v (d ! k) * m_i (d ! k)))
                   \<and> map_of (Vmpp s') ch = Some (m_v (d ! k))
                   \<and> map_of (Impp s') ch = Some (m_i (d ! k))
                   \<and> map_of (Mmpp s') ch = Some (m_v (d ! k), m_i (d ! k), m_t (d ! k))
                else map_of (Pmax s') ch = map_of (Pmax s) ch
                   \<and> map_of (Vmpp s') ch = map_of (Vmpp s) ch
                   \<and> map_of (Impp s') ch = map_of (Impp s) ch
                   \<and> map_of (Mmpp s') ch = map_of (Mmpp s) ch))"
  using assms
proof (induction xs arbitrary: s Pm Vm Jm Xm)
  case Nil
  then show ?case by simp
next
  case (Cons x xs)
  obtain c dd where x: "x = (c, dd)" by (cases x)
  from Cons.prems(1) x obtain s1 Pm1 Vm1 Jm1 Xm1 where
    step: "register_ch light c dd s (Pm, Vm, Jm, Xm) = (s1, Inr (Pm1, Vm1, Jm1, Xm1))"
    and loop: "register_loop light xs s1 (Pm1, Vm1, Jm1, Xm1) = (s', Inr (Pm', Vm', Jm', Xm'))"
    by (auto split: prod.splits sum.splits)
  from Cons.prems(2) x have dist: "distinct (map fst xs)" and cnot: "c \<notin> fst ` set xs" by auto
  show ?case
  proof (cases "c = ch")
    case True
    with Cons.prems(2,3) x have d: "dd = d" by (auto simp: image_iff)
    from register_ch_result [OF step] True d obtain k where
      k: "argmax (map (\<lambda>e. m_v e * m_i e * (- 1)) d) = Inr k" "k < length d"
      and r1: "Pm1 = AList.update ch (- (m_v (d ! k) * m_i (d ! k))) Pm"
        "Vm1 = AList.update ch (m_v (d ! k)) Vm"
        "Jm1 = AList.update ch (m_i (d ! k)) Jm"
        "Xm1 = AList.update ch k Xm"
      by auto
    from cnot True have chnot: "ch \<notin> fst ` set xs" by simp
    note fr = register_loop_frame_result [OF loop chnot]
    note fs = register_loop_frame_state [OF loop chnot]
    have res: "map_of Pm' ch = Some (- (m_v (d ! k) * m_i (d ! k)))
           \<and> map_of Vm' ch = Some (m_v (d ! k))
           \<and> map_of Jm' ch = Some (m_i (d ! k))
           \<and> map_of Xm' ch = Some k"
      using fr r1 by (simp add: update_conv')
    have st: "light \<longrightarrow>
               (if (case map_of (Pmax s) ch of Some old \<Rightarrow> old < - (m_v (d ! k) * m_i (d ! k)) | None \<Rightarrow> True)
                then map_of (Pmax s') ch = Some (- (m_v (d ! k) * m_i (d ! k)))
                   \<and> map_of (Vmpp s') ch = Some (m_v (d ! k))
                   \<and> map_of (Impp s') ch = Some (m_i (d ! k))
                   \<and> map_of (Mmpp s') ch = Some (m_v (d ! k), m_i (d ! k), m_t (d ! k))
                else map_of (Pmax s') ch = map_of (Pmax s) ch
                   \<and> map_of (Vmpp s') ch = map_of (Vmpp s) ch
                   \<and> map_of (Impp s') ch = map_of (Impp s) ch
                   \<and> map_of (Mmpp s') ch = map_of (Mmpp s) ch)"
    proof
      assume light
      with step True d have "register_ch True ch d s (Pm, Vm, Jm, Xm) = (s1, Inr (Pm1, Vm1, Jm1, Xm1))"
        by simp
      from register_ch_state [OF this k(1)] fs show
        "if (case map_of (Pmax s) ch of Some old \<Rightarrow> old < - (m_v (d ! k) * m_i (d ! k)) | None \<Rightarrow> True)
                then map_of (Pmax s') ch = Some (- (m_v (d ! k) * m_i (d ! k)))
                   \<and> map_of (Vmpp s') ch = Some (m_v (d ! k))
                   \<and> map_of (Impp s') ch = Some (m_i (d ! k))
                   \<and> map_of (Mmpp s') ch = Some (m_v (d ! k), m_i (d ! k), m_t (d ! k))
                else map_of (Pmax s') ch = map_of (Pmax s) ch
                   \<and> map_of (Vmpp s') ch = map_of (Vmpp s) ch
                   \<and> map_of (Impp s') ch = map_of (Impp s) ch
                   \<and> map_of (Mmpp s') ch = map_of (Mmpp s) ch"
        by (auto simp: update_conv' split: if_splits)
    qed
    from k res st show ?thesis by blast
  next
    case False
    with Cons.prems(3) x have mem: "(ch, d) \<in> set xs" by auto
    from False have ne: "ch \<noteq> c" by simp
    from register_ch_frame [OF step ne]
    have eqs: "map_of (Pmax s1) ch = map_of (Pmax s) ch" "map_of (Vmpp s1) ch = map_of (Vmpp s) ch"
      "map_of (Impp s1) ch = map_of (Impp s) ch" "map_of (Mmpp s1) ch = map_of (Mmpp s) ch"
      by simp_all
    from Cons.IH [OF loop dist mem] show ?thesis unfolding eqs .
  qed
qed

lemma sorted_items_set: "set (sorted_items d) = set d"
  by (simp add: sorted_items_def)

lemma sorted_items_distinct: "distinct (map fst d) \<Longrightarrow> distinct (map fst (sorted_items d))"
  by (simp add: sorted_items_def distinct_map)

lemma register_loop_keys:
  assumes "register_loop light xs s (Pm, Vm, Jm, Xm) = (s', Inr (Pm', Vm', Jm', Xm'))"
    and "map_of Pm' ch = Some p" and "map_of Pm ch = None"
  shows "ch \<in> fst ` set xs"
proof (rule ccontr)
  assume "ch \<notin> fst ` set xs"
  from register_loop_frame_result [OF assms(1) this] assms(2,3) show False by simp
qed

lemma light_sweep_run:
  "register_curve [(0, light_sweep)] True fresh
   = (fresh\<lparr>Voc := [(0, 6 / 10)], Isc := [(0, 2 / 100)], Mmpp := [(0, 3 / 10, - (18 / 1000), 1)],
           Vmpp := [(0, 3 / 10)], Impp := [(0, - (18 / 1000))], Pmax := [(0, 54 / 10000)]\<rparr>,
      Inr ([(0, 54 / 10000)], [(0, 3 / 10)], [(0, - (18 / 1000))], [(0, 1)]))"
  by code_simp

lemma weak_after_strong:
  "register_curve weak_curve True strong_stored
   = (strong_stored, Inr ([(0, 8 / 10000)], [(0, 8 / 1000)], [(0, - (1 / 10))], [(0, 0)]))"
  by code_simp

lemma strong_first: "register_curve strong_curve True fresh
   = (strong_stored, Inr ([(0, 12 / 10000)], [(0, 12 / 1000)], [(0, - (1 / 10))], [(0, 0)]))"
  by code_simp

text \<open>
  C6 (as stated in the specification): for every channel of every sweep, the returned
  \<open>P_max\<close> and index identify the record that maximises \<open>|V\<cdot>I|\<close> among the records
  with \<open>V\<cdot>I \<le> 0\<close>. This fails for a sweep without such a record: the inspector takes
  the maximum of \<open>-V\<cdot>I\<close> over all records, with no restriction to a quadrant, and for
  the dark sweep below it returns record 0, whose product is positive.
\<close>

theorem dark_sweep_outside_quadrant:
  "register_curve [(0, dark_sweep)] False fresh
     = (fresh, Inr ([(0, - (1 / 10000))], [(0, 1 / 10)], [(0, 1 / 1000)], [(0, 0)]))
   \<and> \<not> m_v (dark_sweep ! 0) * m_i (dark_sweep ! 0) \<le> 0"
  by code_simp

text \<open>
  C6 (amended): for every channel of a sweep on which \<open>register_curve\<close> returns, the
  returned index is the first record that maximises \<open>-V\<cdot>I\<close> over all records of the
  channel, the returned \<open>P_max\<close> is \<open>-V\<cdot>I\<close> of that record, and \<open>V_mpp\<close> and
  \<open>I_mpp\<close> are its voltage and current. Whenever some record has \<open>V\<cdot>I \<le> 0\<close>, this is
  a record with \<open>V\<cdot>I \<le> 0\<close> that maximises \<open>|V\<cdot>I|\<close> among those records.
\<close>

theorem register_curve_peak:
  assumes "register_curve vector light s = (s', Inr (Pmaxs, Vmpps, Impps, maxIndexs))"
    and "distinct (keys vector)" and "(ch, ch_data) \<in> set vector"
  shows "\<exists>k. map_of maxIndexs ch = Some k \<and> k < length ch_data
     \<and> map_of Pmaxs ch = Some (- (m_v (ch_data ! k) * m_i (ch_data ! k)))
     \<and> map_of Vmpps ch = Some (m_v (ch_data ! k))
     \<and> map_of Impps ch = Some (m_i (ch_data ! k))
     \<and> (\<forall>j<length ch_data.
           m_v (ch_data ! k) * m_i (ch_data ! k) \<le> m_v (ch_data ! j) * m_i (ch_data ! j))
     \<and> (\<forall>j<k. m_v (ch_data ! k) * m_i (ch_data ! k) < m_v (ch_data ! j) * m_i (ch_data ! j))
     \<and> ((\<exists>j<length ch_data. m_v (ch_data ! j) * m_i (ch_data ! j) \<le> 0) \<longrightarrow>
          m_v (ch_data ! k) * m_i (ch_data ! k) \<le> 0
          \<and> (\<forall>j<length ch_data. m_v (ch_data ! j) * m_i (ch_data ! j) \<le> 0 \<longrightarrow>
                \<bar>m_v (ch_data ! j) * m_i (ch_data ! j)\<bar> \<le> \<bar>m_v (ch_data ! k) * m_i (ch_data ! k)\<bar>))"
proof -
  from assms(1) have loop: "register_loop light (sorted_items vector) s ([], [], [], [])
      = (s', Inr (Pmaxs, Vmpps, Impps, maxIndexs))"
    by (simp add: register_curve_def)
  from assms(2) have dist: "distinct (map fst (sorted_items vector))"
    by (simp add: keys_def sorted_items_distinct)
  from assms(3) have mem: "(ch, ch_data) \<in> set (sorted_items vector)"
    by (simp add: sorted_items_set)
  from register_loop_entry [OF loop dist mem] obtain k where
    am: "argmax (map (\<lambda>e. m_v e * m_i e * (- 1)) ch_data) = Inr k" and kl: "k < length ch_data"
    and res: "map_of Pmaxs ch = Some (- (m_v (ch_data ! k) * m_i (ch_data ! k)))"
      "map_of Vmpps ch = Some (m_v (ch_data ! k))" "map_of Impps ch = Some (m_i (ch_data ! k))"
      "map_of maxIndexs ch = Some k"
    by blast
  from argmax_Inr [OF am]
  have le: "\<forall>j<length ch_data. m_v (ch_data ! k) * m_i (ch_data ! k) \<le> m_v (ch_data ! j) * m_i (ch_data ! j)"
    and lt: "\<forall>j<k. m_v (ch_data ! k) * m_i (ch_data ! k) < m_v (ch_data ! j) * m_i (ch_data ! j)"
    using kl by auto
  have quad: "(\<exists>j<length ch_data. m_v (ch_data ! j) * m_i (ch_data ! j) \<le> 0) \<longrightarrow>
          m_v (ch_data ! k) * m_i (ch_data ! k) \<le> 0
          \<and> (\<forall>j<length ch_data. m_v (ch_data ! j) * m_i (ch_data ! j) \<le> 0 \<longrightarrow>
                \<bar>m_v (ch_data ! j) * m_i (ch_data ! j)\<bar> \<le> \<bar>m_v (ch_data ! k) * m_i (ch_data ! k)\<bar>)"
  proof (intro impI conjI allI)
    assume "\<exists>j<length ch_data. m_v (ch_data ! j) * m_i (ch_data ! j) \<le> 0"
    then obtain j where "j < length ch_data" "m_v (ch_data ! j) * m_i (ch_data ! j) \<le> 0" by blast
    with le show k0: "m_v (ch_data ! k) * m_i (ch_data ! k) \<le> 0" by (meson order_trans)
    fix i
    assume "i < length ch_data" "m_v (ch_data ! i) * m_i (ch_data ! i) \<le> 0"
    moreover from this le have "m_v (ch_data ! k) * m_i (ch_data ! k) \<le> m_v (ch_data ! i) * m_i (ch_data ! i)"
      by blast
    ultimately show "\<bar>m_v (ch_data ! i) * m_i (ch_data ! i)\<bar> \<le> \<bar>m_v (ch_data ! k) * m_i (ch_data ! k)\<bar>"
      using k0 by linarith
  qed
  from res kl le lt quad show ?thesis by auto
qed

theorem register_curve_peak_witness:
  "distinct (keys [(0, light_sweep)]) \<and> (0, light_sweep) \<in> set [(0, light_sweep)]
   \<and> (\<exists>k. map_of [(0::int, 1::nat)] 0 = Some k \<and> k < length light_sweep
        \<and> m_v (light_sweep ! k) * m_i (light_sweep ! k) \<le> 0)"
  using register_curve_peak [OF light_sweep_run, of 0 light_sweep]
  by (auto simp: keys_def light_sweep_def m_v_def m_i_def)

text \<open>
  C3 (as stated in the specification): the stored \<open>P_max\<close> never decreases in absolute
  value, and \<open>P_max\<close> values \<open>-1.2e-3\<close> then \<open>-8.0e-4\<close> on one channel leave the
  stored \<open>P_max\<close> at \<open>-1.2e-3\<close> and \<open>V_mpp\<close> unchanged. This fails: the comparison is
  on the signed value \<open>-V\<cdot>I\<close>, and \<open>-8.0e-4\<close> exceeds \<open>-1.2e-3\<close>, so the second
  curve replaces the first.
\<close>

theorem weaker_loss_replaces_stored:
  "Pmax (fst (register_curve strong_loss True fresh)) = [(0, - (12 / 10000))]
   \<and> Vmpp (fst (register_curve strong_loss True fresh)) = [(0, 12 / 1000)]
   \<and> Pmax (fst (register_curve weak_loss True (fst (register_curve strong_loss True fresh))))
       = [(0, - (8 / 10000))]
   \<and> Vmpp (fst (register_curve weak_loss True (fst (register_curve strong_loss True fresh))))
       = [(0, 8 / 1000)]"
  by code_simp

text \<open>
  C3 (amended): for a light sweep on which \<open>register_curve\<close> returns, and every channel
  of it, the stored \<open>(V_mpp, I_mpp, P_max, M_mpp)\<close> is replaced by the values of the new
  curve exactly when the new curve's maximum power \<open>-V\<cdot>I\<close> strictly exceeds the stored
  \<open>P_max\<close> or none is stored, and is left unchanged otherwise; the stored \<open>P_max\<close> of
  any channel never decreases as a signed value (so 1.2e-3 then 8.0e-4 leaves 1.2e-3).
\<close>

theorem register_curve_monotone:
  assumes "register_curve vector True s = (s', Inr (Pmaxs, Vmpps, Impps, maxIndexs))"
    and "distinct (keys vector)" and "map_of Pmaxs ch = Some pnew"
  shows "(if (case map_of (Pmax s) ch of Some old \<Rightarrow> old < pnew | None \<Rightarrow> True)
          then map_of (Pmax s') ch = Some pnew
             \<and> map_of (Vmpp s') ch = map_of Vmpps ch
             \<and> map_of (Impp s') ch = map_of Impps ch
             \<and> (\<exists>t. map_of (Mmpp s') ch = Some (the (map_of Vmpps ch), the (map_of Impps ch), t))
          else map_of (Pmax s') ch = map_of (Pmax s) ch
             \<and> map_of (Vmpp s') ch = map_of (Vmpp s) ch
             \<and> map_of (Impp s') ch = map_of (Impp s) ch
             \<and> map_of (Mmpp s') ch = map_of (Mmpp s) ch)
       \<and> (\<forall>c old. map_of (Pmax s) c = Some old \<longrightarrow>
             (\<exists>new. map_of (Pmax s') c = Some new \<and> old \<le> new))"
proof -
  from assms(1) have loop: "register_loop True (sorted_items vector) s ([], [], [], [])
      = (s', Inr (Pmaxs, Vmpps, Impps, maxIndexs))"
    by (simp add: register_curve_def)
  from assms(2) have dist: "distinct (map fst (sorted_items vector))"
    by (simp add: keys_def sorted_items_distinct)
  from register_loop_keys [OF loop assms(3)] obtain d where mem: "(ch, d) \<in> set (sorted_items vector)"
    by auto
  from register_loop_entry [OF loop dist mem] obtain k where
    res: "map_of Pmaxs ch = Some (- (m_v (d ! k) * m_i (d ! k)))"
      "map_of Vmpps ch = Some (m_v (d ! k))" "map_of Impps ch = Some (m_i (d ! k))"
    and st: "if (case map_of (Pmax s) ch of Some old \<Rightarrow> old < - (m_v (d ! k) * m_i (d ! k)) | None \<Rightarrow> True)
                then map_of (Pmax s') ch = Some (- (m_v (d ! k) * m_i (d ! k)))
                   \<and> map_of (Vmpp s') ch = Some (m_v (d ! k))
                   \<and> map_of (Impp s') ch = Some (m_i (d ! k))
                   \<and> map_of (Mmpp s') ch = Some (m_v (d ! k), m_i (d ! k), m_t (d ! k))
                else map_of (Pmax s') ch = map_of (Pmax s) ch
                   \<and> map_of (Vmpp s') ch = map_of (Vmpp s) ch
                   \<and> map_of (Impp s') ch = map_of (Impp s) ch
                   \<and> map_of (Mmpp s') ch = map_of (Mmpp s) ch"
    by auto
  from res(1) assms(3) have pn: "pnew = - (m_v (d ! k) * m_i (d ! k))" by simp
  have first:
     "if (case map_of (Pmax s) ch of Some old \<Rightarrow> old < pnew | None \<Rightarrow> True)
          then map_of (Pmax s') ch = Some pnew
             \<and> map_of (Vmpp s') ch = map_of Vmpps ch
             \<and> map_of (Impp s') ch = map_of Impps ch
             \<and> (\<exists>t. map_of (Mmpp s') ch = Some (the (map_of Vmpps ch), the (map_of Impps ch), t))
          else map_of (Pmax s') ch = map_of (Pmax s) ch
             \<and> map_of (Vmpp s') ch = map_of (Vmpp s) ch
             \<and> map_of (Impp s') ch = map_of (Impp s) ch
             \<and> map_of (Mmpp s') ch = map_of (Mmpp s) ch"
  proof (cases "case map_of (Pmax s) ch of Some old \<Rightarrow> old < pnew | None \<Rightarrow> True")
    case True
    then have "case map_of (Pmax s) ch of Some old \<Rightarrow> old < - (m_v (d ! k) * m_i (d ! k)) | None \<Rightarrow> True"
      unfolding pn .
    with st res show ?thesis unfolding pn by auto
  next
    case False
    then have "\<not> (case map_of (Pmax s) ch of Some old \<Rightarrow> old < - (m_v (d ! k) * m_i (d ! k)) | None \<Rightarrow> True)"
      unfolding pn .
    with st show ?thesis unfolding pn by auto
  qed
  have second: "\<forall>c old. map_of (Pmax s) c = Some old \<longrightarrow>
             (\<exists>new. map_of (Pmax s') c = Some new \<and> old \<le> new)"
    using register_loop_mono [OF loop] by blast
  from first second show ?thesis by blast
qed

theorem register_curve_monotone_witness:
  "distinct (keys weak_curve) \<and> map_of [(0::int, 8 / 10000 :: real)] 0 = Some (8 / 10000)
   \<and> map_of (Pmax strong_stored) 0 = Some (12 / 10000)
   \<and> map_of (Pmax (fst (register_curve weak_curve True strong_stored))) 0 = Some (12 / 10000)
   \<and> map_of (Vmpp (fst (register_curve weak_curve True strong_stored))) 0 = Some (12 / 1000)
   \<and> map_of (Impp (fst (register_curve weak_curve True strong_stored))) 0 = Some (- (1 / 10))"
proof -
  have d: "distinct (keys weak_curve)" by (simp add: keys_def weak_curve_def)
  have m: "map_of [(0::int, 8 / 10000 :: real)] 0 = Some (8 / 10000)" by simp
  have old: "map_of (Pmax strong_stored) 0 = Some (12 / 10000)"
    "map_of (Vmpp strong_stored) 0 = Some (12 / 1000)"
    "map_of (Impp strong_stored) 0 = Some (- (1 / 10))"
    by (simp_all add: strong_stored_def)
  from register_curve_monotone [OF weak_after_strong d m] old d m
  show ?thesis by (simp add: weak_after_strong)
qed

subsection \<open>What the tracking algorithm adds to the event list\<close>

lemma grows_refl: "grows Q s s"
  by (simp add: grows_def)

lemma grows_trans: "grows Q s s' \<Longrightarrow> grows Q s' s'' \<Longrightarrow> grows Q s s''"
  by (auto simp: grows_def)

lemma grows_emit: "grows Q s x \<Longrightarrow> Q e \<Longrightarrow> grows Q s (emit e x)"
  by (auto simp: grows_def emit_def)

lemma grows_time_time: "grows Q s x \<Longrightarrow> grows Q s (snd (time_time env x))"
  by (simp add: grows_def time_time_def)

lemma grows_sm_measure: "grows Q s x \<Longrightarrow> Q (Measure chs) \<Longrightarrow> grows Q s (snd (sm_measure env chs x))"
  by (auto simp: grows_def sm_measure_def emit_def Let_def)

lemma grows_sm_measure_one:
  "grows Q s x \<Longrightarrow> Q (MeasureOne c) \<Longrightarrow> grows Q s (snd (sm_measure_one env c x))"
  by (auto simp: grows_def sm_measure_one_def emit_def Let_def)

lemma grows_time_sleep: "grows Q s x \<Longrightarrow> Q (Sleep d) \<Longrightarrow> grows Q s (fst (time_sleep d x))"
  by (auto simp: grows_def time_sleep_def emit_def)

lemma grows_probe_status:
  "grows Q s x \<Longrightarrow> Q (MeasureOne mch) \<Longrightarrow> grows Q s (fst (probe_status env mch ich x))"
  using grows_sm_measure_one [of Q s x mch env]
  by (auto simp: probe_status_def Let_def split: prod.splits sum.splits list.splits)

lemma grows_log_warning:
  "grows Q s x \<Longrightarrow> Q (LogInfo msg) \<Longrightarrow> Q (MqttLog msg) \<Longrightarrow> grows Q s (log_warning msg x)"
  by (auto simp: grows_def log_warning_def emit_def)

lemma grows_detect_ch:
  assumes p: "\<And>e. silent e \<Longrightarrow> Q e" and en: "\<And>b c. Q (EnableOutput b [c])"
    and base: "grows Q s x"
  shows "grows Q s (fst (detect_ch env ch dp x))"
proof -
  have q: "\<And>m. Q (Warn m)" "\<And>m. Q (LogInfo m)" "\<And>m. Q (MqttLog m)" "\<And>c. Q (MeasureOne c)"
    by (auto intro: p simp: silent_def)
  show ?thesis
    unfolding detect_ch_def Let_def
    by (auto split: prod.splits sum.splits dest!: arg_cong [where f = fst]
          intro!: grows_log_warning grows_emit grows_probe_status en q base)
qed

lemma grows_detect_loop:
  assumes p: "\<And>e. silent e \<Longrightarrow> Q e" and en: "\<And>b c. Q (EnableOutput b [c])"
  shows "grows Q s x \<Longrightarrow> grows Q s (fst (detect_loop env chs dp x))"
proof (induction chs arbitrary: dp x)
  case Nil
  then show ?case by simp
next
  case (Cons ch chs)
  from grows_detect_ch [OF p en Cons.prems, of env ch dp]
  have g: "grows Q s (fst (detect_ch env ch dp x))" by simp
  show ?case
  proof (cases "detect_ch env ch dp x")
    case (Pair s1 r)
    with g have g1: "grows Q s s1" by simp
    show ?thesis
    proof (cases r)
      case (Inl e)
      with Pair g1 show ?thesis by simp
    next
      case (Inr dp')
      with Pair Cons.IH [OF g1, of dp'] show ?thesis by simp
    qed
  qed
qed

lemma set_update_subset: "set (AList.update k v al) \<subseteq> insert (k, v) (set al)"
  by (induction al) auto

lemma detect_ch_clean:
  assumes "\<forall>c rows r. (c, rows) \<in> set data \<longrightarrow> r \<in> set rows \<longrightarrow> m_status r \<noteq> 1 \<and> m_status r \<noteq> 2"
  shows "detect_ch env ch (data, pixels) x = (x, Inr (data, pixels))
       \<or> (\<exists>e. detect_ch env ch (data, pixels) x = (x, Inl e))"
proof (cases "getitem pixels ch")
  case (Inl e)
  then show ?thesis by (simp add: detect_ch_def)
next
  case px: (Inr px)
  show ?thesis
  proof (cases "getitem data ch")
    case (Inl e)
    with px show ?thesis by (simp add: detect_ch_def)
  next
    case (Inr ch_data)
    then have "(ch, ch_data) \<in> set data"
      by (auto simp: getitem_def split: option.splits dest: map_of_SomeD)
    with assms have "1 \<notin> set (map m_status ch_data)" "2 \<notin> set (map m_status ch_data)"
      by auto
    with px Inr show ?thesis by (simp add: detect_ch_def)
  qed
qed

lemma detect_loop_clean:
  assumes "\<forall>c rows r. (c, rows) \<in> set data \<longrightarrow> r \<in> set rows \<longrightarrow> m_status r \<noteq> 1 \<and> m_status r \<noteq> 2"
  shows "detect_loop env chs (data, pixels) x = (x, Inr (data, pixels))
       \<or> (\<exists>e. detect_loop env chs (data, pixels) x = (x, Inl e))"
proof (induction chs)
  case Nil
  then show ?case by simp
next
  case (Cons ch chs)
  from detect_ch_clean [OF assms, of env ch pixels x] Cons.IH show ?case by auto
qed

text \<open>Every measurement goes through the safety monitor, which may disable single channels.\<close>

lemma grows_measure_and_check:
  assumes p: "\<And>e. silent e \<Longrightarrow> Q e" and en: "\<And>b c. Q (EnableOutput b [c])"
    and base: "grows Q s x"
  shows "grows Q s (fst (measure_and_check env pixels x))"
proof -
  have q: "\<And>d. Q (Callback d)" "\<And>c. Q (Measure c)"
    by (auto intro: p simp: silent_def)
  have m: "grows Q s (snd (sm_measure env (keys pixels) x))"
    by (rule grows_sm_measure [OF base q(2)])
  have d: "grows Q s (fst (detect_short_circuits env (fst (sm_measure env (keys pixels) x)) pixels
                             (snd (sm_measure env (keys pixels) x))))"
    unfolding detect_short_circuits_def by (rule grows_detect_loop [OF p en m])
  then show ?thesis
    by (auto simp: measure_and_check_def Let_def split: prod.splits sum.splits
          intro!: grows_emit q)
qed

text \<open>On a source-measure unit that never reports a short the monitor does nothing.\<close>

lemma grows_measure_and_check_clean:
  assumes p: "\<And>e. silent e \<Longrightarrow> Q e"
    and clean: "\<forall>h c rows r. (c, rows) \<in> set (smu_measure env h) \<longrightarrow> r \<in> set rows
                  \<longrightarrow> m_status r \<noteq> 1 \<and> m_status r \<noteq> 2"
    and base: "grows Q s x"
  shows "grows Q s (fst (measure_and_check env pixels x))"
proof -
  have q: "\<And>d. Q (Callback d)" "\<And>c. Q (Measure c)"
    by (auto intro: p simp: silent_def)
  obtain data x1 where sm: "sm_measure env (keys pixels) x = (data, x1)"
    by (cases "sm_measure env (keys pixels) x")
  from grows_sm_measure [OF base q(2), of env "keys pixels"] sm have m: "grows Q s x1" by simp
  from sm have "data = smu_measure env (events x1)"
    by (auto simp: sm_measure_def Let_def)
  with clean have cl: "\<forall>c rows r. (c, rows) \<in> set data \<longrightarrow> r \<in> set rows \<longrightarrow> m_status r \<noteq> 1 \<and> m_status r \<noteq> 2"
    by blast
  from detect_loop_clean [OF cl, of env "keys pixels" pixels x1]
  have "fst (detect_short_circuits env data pixels x1) = x1"
    by (auto simp: detect_short_circuits_def)
  with m sm show ?thesis
    by (auto simp: measure_and_check_def Let_def split: prod.splits sum.splits
          intro!: grows_emit q dest!: arg_cong [where f = fst])
qed

lemma grows_soak_loop:
  assumes mc: "\<And>px x. grows Q s x \<Longrightarrow> grows Q s (fst (measure_and_check env px x))"
    and sl: "\<And>d. Q (Sleep d)"
  shows "grows Q s x \<Longrightarrow> grows Q s (fst (soak_loop n env pre delay start T pixels spos x))"
proof (induction n arbitrary: pixels spos x)
  case 0
  then show ?case by simp
next
  case (Suc n)
  obtain now x1 where tt: "time_time env x = (now, x1)" by (cases "time_time env x")
  from grows_time_time [OF Suc.prems, of env] tt have g1: "grows Q s x1" by simp
  show ?case
  proof (cases "now - start < T \<and> pixels \<noteq> []")
    case False
    with tt g1 show ?thesis by auto
  next
    case True
    define r2 where "r2 = (if pre then time_sleep (delay / 1000) x1 else (x1, Inr ()))"
    have g2: "grows Q s (fst r2)"
      unfolding r2_def using g1 by (auto intro: grows_time_sleep sl)
    show ?thesis
    proof (cases r2)
      case (Pair x2 e2)
      with g2 have gx2: "grows Q s x2" by simp
      show ?thesis
      proof (cases e2)
        case (Inl e)
        with tt True Pair gx2 show ?thesis by (simp add: r2_def [symmetric])
      next
        case (Inr u)
        obtain x3 r3 where m3: "measure_and_check env pixels x2 = (x3, r3)"
          by (cases "measure_and_check env pixels x2")
        from mc [OF gx2, of pixels] m3 have gx3: "grows Q s x3" by simp
        show ?thesis
        proof (cases r3)
          case (Inl e)
          with tt True Pair Inr m3 gx3 show ?thesis by (simp add: r2_def [symmetric])
        next
          case r3: (Inr dp)
          obtain data pixels' where dp: "dp = (data, pixels')" by (cases dp)
          show ?thesis
          proof (cases "spos_extend (sorted_items data) spos")
            case (Inl e)
            with tt True Pair Inr m3 r3 dp gx3 show ?thesis by (simp add: r2_def [symmetric])
          next
            case sp: (Inr spos')
            define r4 where "r4 = (if pre then (x3, Inr ()) else time_sleep (delay / 1000) x3)"
            have g4: "grows Q s (fst r4)"
              unfolding r4_def using gx3 by (auto intro: grows_time_sleep sl)
            show ?thesis
            proof (cases r4)
              case p4: (Pair x4 e4)
              with g4 have gx4: "grows Q s x4" by simp
              show ?thesis
              proof (cases e4)
                case (Inl e)
                with tt True Pair Inr m3 r3 dp sp p4 gx4 show ?thesis
                  by (simp add: r2_def [symmetric] r4_def [symmetric])
              next
                case e4: (Inr u4)
                from Suc.IH [OF gx4, of pixels' spos']
                have "grows Q s (fst (soak_loop n env pre delay start T pixels' spos' x4))" .
                with tt True Pair Inr m3 r3 dp sp p4 e4 show ?thesis
                  by (simp add: r2_def [symmetric] r4_def [symmetric])
              qed
            qed
          qed
        qed
      qed
    qed
  qed
qed

lemma grows_soak:
  assumes mc: "\<And>px x. grows Q s x \<Longrightarrow> grows Q s (fst (measure_and_check env px x))"
    and sl: "\<And>d. Q (Sleep d)"
    and base: "grows Q s x"
  shows "grows Q s (fst (soak n env pre delay T pixels q x))"
proof -
  have "grows Q s (fst (soak_loop n env pre delay (fst (time_time env x)) T pixels
           (map (\<lambda>ch. (ch, [])) (keys pixels)) (snd (time_time env x))))"
    by (rule grows_soak_loop [OF mc sl grows_time_time [OF base]])
  then show ?thesis
    by (auto simp: soak_def Let_def split: prod.splits option.splits sum.splits)
qed

lemma grows_read_run_time: "grows Q s x \<Longrightarrow> grows Q s (fst (read_run_time env x))"
  using grows_time_time [of Q s x env]
  by (auto simp: read_run_time_def Let_def split: prod.splits option.splits)

lemma grows_gd_step:
  assumes mc: "\<And>px x. grows Q s x \<Longrightarrow> grows Q s (fst (measure_and_check env px x))"
    and sl: "\<And>d. Q (Sleep d)"
    and cfg: "Q (ConfigureDC (gv_next g))"
    and base: "grows Q s x"
  shows "grows Q s (fst (gd_step env P g x))"
proof -
  have g1: "grows Q s (emit (ConfigureDC (gv_next g)) x)" by (rule grows_emit [OF base cfg])
  obtain x2 e2 where ts: "time_sleep (delay_ms P / 1000) (emit (ConfigureDC (gv_next g)) x) = (x2, e2)"
    by (cases "time_sleep (delay_ms P / 1000) (emit (ConfigureDC (gv_next g)) x)")
  from grows_time_sleep [OF g1 sl, of "delay_ms P / 1000"] ts have g2: "grows Q s x2" by simp
  obtain x3 r3 where m3: "measure_and_check env (gv_pixels g) x2 = (x3, r3)"
    by (cases "measure_and_check env (gv_pixels g) x2")
  from mc [OF g2, of "gv_pixels g"] m3 have g3: "grows Q s x3" by simp
  from grows_read_run_time [OF g3, of env] have g4: "grows Q s (fst (read_run_time env x3))" .
  from ts m3 g2 g3 g4 show ?thesis
    by (auto simp: gd_step_def Let_def split: prod.splits sum.splits)
qed

lemma gd_step_next:
  assumes mc: "\<And>px x. grows Q s x \<Longrightarrow> grows Q s (fst (measure_and_check env px x))"
    and sl: "\<And>d. Q (Sleep d)"
    and cfg: "Q (ConfigureDC (gv_next g))"
    and base: "grows Q s x"
    and step: "gd_step env P g x = (x', Inr g')"
  shows "\<exists>chs deltas. step_loop (voltage_lock s) chs deltas (gv_next g) = Inr (gv_next g')"
proof -
  have g1: "grows Q s (emit (ConfigureDC (gv_next g)) x)" by (rule grows_emit [OF base cfg])
  obtain x2 e2 where ts: "time_sleep (delay_ms P / 1000) (emit (ConfigureDC (gv_next g)) x) = (x2, e2)"
    by (cases "time_sleep (delay_ms P / 1000) (emit (ConfigureDC (gv_next g)) x)")
  from grows_time_sleep [OF g1 sl, of "delay_ms P / 1000"] ts have g2: "grows Q s x2" by simp
  obtain x3 r3 where m3: "measure_and_check env (gv_pixels g) x2 = (x3, r3)"
    by (cases "measure_and_check env (gv_pixels g) x2")
  from mc [OF g2, of "gv_pixels g"] m3 have g3: "grows Q s x3" by simp
  then have lock: "voltage_lock x3 = voltage_lock s" by (auto simp: grows_def)
  from step ts m3 have "\<exists>chs deltas. step_loop (voltage_lock x3) chs deltas (gv_next g) = Inr (gv_next g')"
    by (fastforce simp: gd_step_def Let_def split: prod.splits sum.splits)
  with lock show ?thesis by simp
qed

lemma gd_seed_next:
  assumes mc: "\<And>px x. grows Q s x \<Longrightarrow> grows Q s (fst (measure_and_check env px x))"
    and base: "grows Q s x"
    and seed: "gd_seed env P pixels x = (x', Inr g)"
  shows "\<exists>chs vm deltas. seed_loop (voltage_lock s) chs vm deltas [] = Inr (gv_next g)"
proof -
  obtain x1 r1 where m1: "measure_and_check env pixels x = (x1, r1)"
    by (cases "measure_and_check env pixels x")
  from mc [OF base, of pixels] m1 have g1: "grows Q s x1" by simp
  obtain x2 r2 where rt: "read_run_time env x1 = (x2, r2)" by (cases "read_run_time env x1")
  from grows_read_run_time [OF g1, of env] rt have "grows Q s x2" by simp
  then have lock: "voltage_lock x2 = voltage_lock s" by (auto simp: grows_def)
  from seed m1 rt have "\<exists>chs vm deltas. seed_loop (voltage_lock x2) chs vm deltas [] = Inr (gv_next g)"
    by (fastforce simp: gd_seed_def Let_def split: prod.splits sum.splits)
  with lock show ?thesis by simp
qed

text \<open>The main loop, for a property \<open>J\<close> of its variables that every step keeps.\<close>

lemma grows_gd_loop:
  assumes mc: "\<And>px x. grows Q s x \<Longrightarrow> grows Q s (fst (measure_and_check env px x))"
    and sl: "\<And>d. Q (Sleep d)"
    and step: "\<And>g x x' g'. J g \<Longrightarrow> grows Q s x \<Longrightarrow> gd_step env P g x = (x', Inr g') \<Longrightarrow> J g'"
    and cfg: "\<And>g. J g \<Longrightarrow> Q (ConfigureDC (gv_next g))"
  shows "J g \<Longrightarrow> grows Q s x \<Longrightarrow> grows Q s (fst (gd_loop n env P g x))"
proof (induction n arbitrary: g x)
  case 0
  then show ?case by simp
next
  case (Suc n)
  show ?case
  proof (cases "\<not> abort_sig env (gv_i g) \<and> gv_run_time g < duration P \<and> gv_pixels g \<noteq> []")
    case False
    with Suc.prems show ?thesis by auto
  next
    case True
    obtain x' r where st: "gd_step env P g x = (x', r)" by (cases "gd_step env P g x")
    from grows_gd_step [OF mc sl cfg [OF Suc.prems(1)] Suc.prems(2), of P] st
    have gx': "grows Q s x'" by simp
    show ?thesis
    proof (cases r)
      case (Inl e)
      with True st gx' show ?thesis by simp
    next
      case (Inr g')
      from step [OF Suc.prems(1) Suc.prems(2)] st Inr have "J g'" by simp
      from Suc.IH [OF this gx'] True st Inr show ?thesis by simp
    qed
  qed
qed

lemma finish_loop_events:
  "events (fst (finish_loop xs x)) = events x \<and> voltage_lock (fst (finish_loop xs x)) = voltage_lock x"
  by (induction xs x rule: finish_loop.induct) (auto split: list.splits)

lemma grows_gd_finish: "grows Q s x \<Longrightarrow> grows Q s (fst (gd_finish g x))"
  using finish_loop_events [of "hd (gv_m g)" x]
  by (cases "gv_m g") (auto simp: gd_finish_def grows_def)

lemma grows_gd_seed:
  assumes mc: "\<And>px x. grows Q s x \<Longrightarrow> grows Q s (fst (measure_and_check env px x))"
    and base: "grows Q s x"
  shows "grows Q s (fst (gd_seed env P pixels x))"
proof -
  obtain x1 r1 where m1: "measure_and_check env pixels x = (x1, r1)"
    by (cases "measure_and_check env pixels x")
  from mc [OF base, of pixels] m1 have g1: "grows Q s x1" by simp
  from grows_read_run_time [OF g1, of env] have "grows Q s (fst (read_run_time env x1))" .
  with m1 g1 show ?thesis
    by (auto simp: gd_seed_def Let_def split: prod.splits sum.splits)
qed

lemma grows_gd_main:
  assumes mc: "\<And>px x. grows Q s x \<Longrightarrow> grows Q s (fst (measure_and_check env px x))"
    and sl: "\<And>d. Q (Sleep d)"
    and step: "\<And>g x x' g'. J g \<Longrightarrow> grows Q s x \<Longrightarrow> gd_step env P g x = (x', Inr g') \<Longrightarrow> J g'"
    and cfg: "\<And>g. J g \<Longrightarrow> Q (ConfigureDC (gv_next g))"
    and seed: "\<And>px x x' g. grows Q s x \<Longrightarrow> gd_seed env P px x = (x', Inr g) \<Longrightarrow> J g"
    and base: "grows Q s x"
  shows "grows Q s (fst (gd_main n env P snaith_mode pixels q x))"
proof -
  obtain x1 r1 where s1: "gd_seed env P pixels x = (x1, r1)" by (cases "gd_seed env P pixels x")
  from grows_gd_seed [OF mc base, of P pixels] s1 have g1: "grows Q s x1" by simp
  show ?thesis
  proof (cases r1)
    case (Inl e)
    with s1 g1 show ?thesis by (simp add: gd_main_def)
  next
    case (Inr g0)
    from seed [OF base] s1 Inr have j0: "J g0" by simp
    obtain x2 r2 where l2: "gd_loop n env P g0 x1 = (x2, r2)" by (cases "gd_loop n env P g0 x1")
    have "grows Q s (fst (gd_loop n env P g0 x1))"
    proof (rule grows_gd_loop [where J = J and Q = Q and s = s])
      show "\<And>px x. grows Q s x \<Longrightarrow> grows Q s (fst (measure_and_check env px x))" by (rule mc)
      show "\<And>d. Q (Sleep d)" by (rule sl)
      show "\<And>g x x' g'. J g \<Longrightarrow> grows Q s x \<Longrightarrow> gd_step env P g x = (x', Inr g') \<Longrightarrow> J g'"
        by (rule step)
      show "\<And>g. J g \<Longrightarrow> Q (ConfigureDC (gv_next g))" by (rule cfg)
      show "J g0" by (rule j0)
      show "grows Q s x1" by (rule g1)
    qed
    with l2 have g2: "grows Q s x2" by simp
    show ?thesis
    proof (cases r2)
      case None
      with s1 Inr l2 g2 show ?thesis by (simp add: gd_main_def)
    next
      case (Some r)
      show ?thesis
      proof (cases r)
        case (Inl e)
        with s1 Inr l2 g2 Some show ?thesis by (simp add: gd_main_def)
      next
        case g: (Inr g)
        define r3 where "r3 = (if snaith_mode
            then soak n env False (delay_ms P) snaith_post_soak_t (gv_pixels g) q x2
            else (x2, Some (Inr (gv_pixels g, q))))"
        have g3: "grows Q s (fst r3)"
          unfolding r3_def using grows_soak [OF mc sl g2] g2 by auto
        have "grows Q s (fst (case r3 of
                (s3, None) \<Rightarrow> (s3, None)
              | (s3, Some (Inl e)) \<Rightarrow> (s3, Some (Inl e))
              | (s3, Some (Inr (pixels', q'))) \<Rightarrow>
                 (case gd_finish g s3 of
                    (s4, Inl e) \<Rightarrow> (s4, Some (Inl e))
                  | (s4, Inr _) \<Rightarrow> (s4, Some (Inr (q', pixels'))))))"
          using g3 grows_gd_finish [of Q s "fst r3" g]
          by (auto split: prod.splits option.splits sum.splits)
        with s1 Inr l2 Some g show ?thesis
          by (simp add: gd_main_def r3_def [symmetric])
      qed
    qed
  qed
qed

lemma grows_gradient_descent:
  assumes mc: "\<And>px x. grows Q s x \<Longrightarrow> grows Q s (fst (measure_and_check env px x))"
    and p: "\<And>e. silent e \<Longrightarrow> Q e"
    and step: "\<And>P g x x' g'. J g \<Longrightarrow> grows Q s x \<Longrightarrow> gd_step env P g x = (x', Inr g') \<Longrightarrow> J g'"
    and cfg: "\<And>g. J g \<Longrightarrow> Q (ConfigureDC (gv_next g))"
    and seed: "\<And>P px x x' g. grows Q s x \<Longrightarrow> gd_seed env P px x = (x', Inr g) \<Longrightarrow> J g"
    and base: "grows Q s x"
  shows "grows Q s (fst (gradient_descent n env dur sv alph min_st NPLC snaith delay max_st moment delta_z pixels x))"
proof -
  have sl: "\<And>d. Q (Sleep d)" and np: "\<And>v. Q (SetNplc v)" by (auto intro: p simp: silent_def)
  define x1 where "x1 = (if NPLC \<noteq> - 1 then emit (SetNplc NPLC) x else x)"
  have g1: "grows Q s x1" unfolding x1_def using base by (auto intro: grows_emit np)
  have main: "grows Q s (fst (gd_main n env P sn px q y))" if b: "grows Q s y" for P sn px q y
  proof (rule grows_gd_main [where J = J and Q = Q and s = s])
    show "\<And>px x. grows Q s x \<Longrightarrow> grows Q s (fst (measure_and_check env px x))" by (rule mc)
    show "\<And>d. Q (Sleep d)" by (rule sl)
    show "\<And>g x x' g'. J g \<Longrightarrow> grows Q s x \<Longrightarrow> gd_step env P g x = (x', Inr g') \<Longrightarrow> J g'"
      by (rule step)
    show "\<And>g. J g \<Longrightarrow> Q (ConfigureDC (gv_next g))" by (rule cfg)
    show "\<And>px x x' g. grows Q s x \<Longrightarrow> gd_seed env P px x = (x', Inr g) \<Longrightarrow> J g" by (rule seed)
    show "grows Q s y" by (rule b)
  qed
  show ?thesis
  proof (cases snaith)
    case False
    with main [OF g1] show ?thesis
      by (simp add: gradient_descent_def Let_def x1_def [symmetric])
  next
    case True
    show ?thesis
    proof (cases sv)
      case (PyDict d)
      with True g1 show ?thesis by (simp add: gradient_descent_def Let_def x1_def [symmetric])
    next
      case (PyFloat v)
      obtain x2 r2 where so: "soak n env True delay snaith_pre_soak_t pixels [] x1 = (x2, r2)"
        by (cases "soak n env True delay snaith_pre_soak_t pixels [] x1")
      from grows_soak [OF mc sl g1, of n True delay snaith_pre_soak_t pixels "[]"] so
      have g2: "grows Q s x2" by simp
      from True PyFloat so g2 main [OF g2] show ?thesis
        by (auto simp: gradient_descent_def Let_def x1_def [symmetric]
              split: option.splits sum.splits prod.splits)
    qed
  qed
qed

lemma fst_wrap_gd: "fst (wrap_gd ssvocs r) = fst r"
  by (auto simp: wrap_gd_def split: prod.splits option.splits sum.splits)

lemma grows_dispatch:
  assumes mc: "\<And>px x. grows Q s x \<Longrightarrow> grows Q s (fst (measure_and_check env px x))"
    and p: "\<And>e. silent e \<Longrightarrow> Q e"
    and step: "\<And>P g x x' g'. J g \<Longrightarrow> grows Q s x \<Longrightarrow> gd_step env P g x = (x', Inr g') \<Longrightarrow> J g'"
    and cfg: "\<And>g. J g \<Longrightarrow> Q (ConfigureDC (gv_next g))"
    and seed: "\<And>P px x x' g. grows Q s x \<Longrightarrow> gd_seed env P px x = (x', Inr g) \<Longrightarrow> J g"
  shows "grows Q s (fst (dispatch n env dur NPLC extra pixels ssvocs s))"
proof -
  have gd: "grows Q s (fst (gradient_descent n env dur sv a b c d e f g h pixels s))" for sv a b c d e f g h
  proof (rule grows_gradient_descent [where J = J and Q = Q and s = s])
    show "\<And>px x. grows Q s x \<Longrightarrow> grows Q s (fst (measure_and_check env px x))" by (rule mc)
    show "\<And>e. silent e \<Longrightarrow> Q e" by (rule p)
    show "\<And>P g x x' g'. J g \<Longrightarrow> grows Q s x \<Longrightarrow> gd_step env P g x = (x', Inr g') \<Longrightarrow> J g'"
      by (rule step)
    show "\<And>g. J g \<Longrightarrow> Q (ConfigureDC (gv_next g))" by (rule cfg)
    show "\<And>P px x x' g. grows Q s x \<Longrightarrow> gd_seed env P px x = (x', Inr g) \<Longrightarrow> J g" by (rule seed)
    show "grows Q s s" by (rule grows_refl)
  qed
  have li: "\<And>m. Q (LogInfo m)" by (auto intro: p simp: silent_def)
  show ?thesis
    unfolding dispatch_def Let_def
    by (auto split: list.splits sum.splits simp: fst_wrap_gd intro!: gd grows_emit grows_refl li)
qed

lemma launch_after_bootstrap:
  "bootstrap env NPLC i_limit pixels s = (s1, Inr ssvocs) \<Longrightarrow>
   launch_tracker fuel env dur NPLC vc i_limit extra pixels s
     = dispatch fuel env dur NPLC extra pixels ssvocs s1"
  by (simp add: launch_tracker_def)

lemma bootstrap_lock:
  assumes "bootstrap env NPLC i_limit pixels s = (s1, Inr ssvocs)"
  shows "\<exists>c voc rest. Voc s1 = (c, voc) # rest \<and> voltage_lock s1 = Some (0 \<le> voc)"
  using assms
  by (auto simp: bootstrap_def Let_def split: prod.splits sum.splits list.splits if_splits)

lemma bootstrap_ssvocs:
  assumes "bootstrap env NPLC i_limit pixels s = (s1, Inr ssvocs)" "Voc s \<noteq> []"
  shows "ssvocs = []"
  using assms
  by (auto simp: bootstrap_def Let_def time_time_def emit_def
        split: prod.splits sum.splits if_splits list.splits)

lemma bootstrap_events:
  assumes "bootstrap env NPLC i_limit pixels s = (s1, Inr ssvocs)"
  shows "\<exists>pre values. events s1 = pre @ [ConfigureDC values, EnableOutput True (keys pixels)]"
  using assms
  by (auto simp: bootstrap_def Let_def emit_def split: prod.splits sum.splits if_splits list.splits)

lemma dispatch_ssvocs:
  assumes "snd (dispatch fuel env dur NPLC extra pixels ssvocs s1) = Some (Inr (m, ssv))"
  shows "ssv = ssvocs"
  using assms
  by (auto simp: dispatch_def wrap_gd_def Let_def
        split: list.splits if_splits sum.splits prod.splits option.splits)

lemma dispatch_cases:
  assumes fmt: "split_once ''://'' [] extra = [algo, params]"
  shows "dispatch fuel env dur NPLC extra pixels ssvocs s1 =
     (if algo = ''gd'' \<or> algo = ''snaith'' then
        (if params = [] then
           wrap_gd ssvocs (gradient_descent fuel env dur (PyDict (Vmpp s1)) 10 (2 / 1000) NPLC
              (algo = ''snaith'') 0 (1 / 10) (1 / 10) (1 / 100) pixels s1)
         else if length (split_char (CHR '':'') params) \<noteq> 7 then (s1, Some (Inl (ValueError Usage)))
         else (case floats (to_float env) (split_char (CHR '':'') params) of
                 Inl e \<Rightarrow> (s1, Some (Inl e))
               | Inr fs \<Rightarrow>
                   wrap_gd ssvocs (gradient_descent fuel env dur (PyDict (Vmpp s1))
                      (fs ! 0) (fs ! 1) (fs ! 2) (algo = ''snaith'') (fs ! 3)
                      (fs ! 4) (fs ! 5) (fs ! 6) pixels s1)))
      else (emit (LogInfo (algo_warning algo)) s1, Some (Inr ([], ssvocs))))"
  using fmt by (simp add: dispatch_def Let_def)

subsection \<open>The quadrant lock\<close>

lemma lock_clamp_ok: "lock_ok l (lock_clamp l x)"
  by (simp add: lock_ok_def lock_clamp_def)

lemma update_all_ok:
  "list_all (\<lambda>(c, v). lock_ok l v) d \<Longrightarrow> lock_ok l x \<Longrightarrow> list_all (\<lambda>(c, v). lock_ok l v) (AList.update k x d)"
  using set_update_subset [of k x d] by (auto simp: list_all_iff)

lemma step_loop_ok:
  "step_loop (Some l) chs deltas nv = Inr nv' \<Longrightarrow> list_all (\<lambda>(c, v). lock_ok l v) nv
     \<Longrightarrow> list_all (\<lambda>(c, v). lock_ok l v) nv'"
proof (induction chs arbitrary: nv)
  case Nil
  then show ?case by simp
next
  case (Cons ch chs)
  from Cons.prems(1) obtain a d where
    "step_loop (Some l) chs deltas (AList.update ch (lock_clamp l (a + d)) nv) = Inr nv'"
    by (auto split: sum.splits)
  from Cons.IH [OF this update_all_ok [OF Cons.prems(2) lock_clamp_ok]] show ?case .
qed

lemma seed_loop_ok:
  "seed_loop (Some l) chs vm deltas nv = Inr nv' \<Longrightarrow> list_all (\<lambda>(c, v). lock_ok l v) nv
     \<Longrightarrow> list_all (\<lambda>(c, v). lock_ok l v) nv'"
proof (induction chs arbitrary: nv)
  case Nil
  then show ?case by simp
next
  case (Cons ch chs)
  from Cons.prems(1) obtain a d where
    "seed_loop (Some l) chs vm deltas (AList.update ch (lock_clamp l (a + d)) nv) = Inr nv'"
    by (auto split: sum.splits)
  from Cons.IH [OF this update_all_ok [OF Cons.prems(2) lock_clamp_ok]] show ?case .
qed

lemma grows_dispatch_lock:
  assumes lock: "voltage_lock s1 = Some l"
  shows "grows (respects_lock l) s1 (fst (dispatch fuel env dur NPLC extra pixels ssvocs s1))"
proof (rule grows_dispatch [where J = "\<lambda>g. list_all (\<lambda>(c, v). lock_ok l v) (gv_next g)"])
  show p: "\<And>e. silent e \<Longrightarrow> respects_lock l e"
    by (auto simp: silent_def respects_lock_def split: event.splits)
  show mc: "\<And>px x. grows (respects_lock l) s1 x
          \<Longrightarrow> grows (respects_lock l) s1 (fst (measure_and_check env px x))"
  proof -
    fix px x
    assume b: "grows (respects_lock l) s1 x"
    have en: "\<And>b c. respects_lock l (EnableOutput b [c])" by (simp add: respects_lock_def)
    show "grows (respects_lock l) s1 (fst (measure_and_check env px x))"
      by (rule grows_measure_and_check [OF p en b])
  qed
  have sl: "\<And>d. respects_lock l (Sleep d)" by (simp add: respects_lock_def)
  show cfg: "\<And>g. list_all (\<lambda>(c, v). lock_ok l v) (gv_next g)
          \<Longrightarrow> respects_lock l (ConfigureDC (gv_next g))"
    by (simp add: respects_lock_def)
  show "\<And>P g x x' g'. list_all (\<lambda>(c, v). lock_ok l v) (gv_next g) \<Longrightarrow> grows (respects_lock l) s1 x
          \<Longrightarrow> gd_step env P g x = (x', Inr g') \<Longrightarrow> list_all (\<lambda>(c, v). lock_ok l v) (gv_next g')"
  proof -
    fix P g x x' g'
    assume j: "list_all (\<lambda>(c, v). lock_ok l v) (gv_next g)" and b: "grows (respects_lock l) s1 x"
      and st: "gd_step env P g x = (x', Inr g')"
    from gd_step_next [OF mc sl cfg [OF j] b st] lock obtain chs deltas where
      "step_loop (Some l) chs deltas (gv_next g) = Inr (gv_next g')" by auto
    from step_loop_ok [OF this j] show "list_all (\<lambda>(c, v). lock_ok l v) (gv_next g')" .
  qed
  show "\<And>P px x x' g. grows (respects_lock l) s1 x \<Longrightarrow> gd_seed env P px x = (x', Inr g)
          \<Longrightarrow> list_all (\<lambda>(c, v). lock_ok l v) (gv_next g)"
  proof -
    fix P px x x' g
    assume b: "grows (respects_lock l) s1 x" and sd: "gd_seed env P px x = (x', Inr g)"
    from gd_seed_next [OF mc b sd] lock obtain chs vm deltas where
      "seed_loop (Some l) chs vm deltas [] = Inr (gv_next g)" by auto
    from seed_loop_ok [OF this] show "list_all (\<lambda>(c, v). lock_ok l v) (gv_next g)" by simp
  qed
qed

text \<open>
  What the restriction does give, over the real numbers of this model: in every run of
  \<open>launch_tracker\<close> whose bootstrap succeeds, the lock is positive exactly when the
  open-circuit voltage of the first channel is \<open>\<ge> 0\<close>, and every voltage that the
  gradient descent passes to \<open>configure_dc\<close> is a value of \<open>lock_clamp\<close>, hence not
  below zero under a positive lock and not above zero under a negative lock. Zero itself
  is not excluded, and a not-a-number setpoint, which both comparisons of the source let
  through, is outside this model.
\<close>

lemma setpoints_pass_lock_clamp:
  assumes boot: "bootstrap env NPLC i_limit pixels s = (s1, Inr ssvocs)"
    and ev: "ConfigureDC setpoints \<in> set (drop (length (events s1))
               (events (fst (launch_tracker fuel env dur NPLC voc_compliance i_limit extra pixels s))))"
    and v: "(ch, v) \<in> set setpoints"
  shows "(\<exists>c voc rest. Voc s1 = (c, voc) # rest \<and> voltage_lock s1 = Some (0 \<le> voc))
       \<and> (voltage_lock s1 = Some True \<longrightarrow> 0 \<le> v)
       \<and> (voltage_lock s1 = Some False \<longrightarrow> v \<le> 0)
       \<and> (\<exists>l u. voltage_lock s1 = Some l \<and> v = lock_clamp l u)
       \<and> (\<forall>l u. lock_clamp l u =
             (if l \<and> u < 0 then 1 / 10000 else if \<not> l \<and> 0 < u then - (1 / 10000) else u))"
proof -
  from bootstrap_lock [OF boot] obtain c voc rest where
    lk: "Voc s1 = (c, voc) # rest" "voltage_lock s1 = Some (0 \<le> voc)" by blast
  define l where "l = (0 \<le> voc)"
  from lk have lock: "voltage_lock s1 = Some l" by (simp add: l_def)
  from grows_dispatch_lock [OF lock, of fuel env dur NPLC extra pixels ssvocs]
  obtain es where es: "events (fst (dispatch fuel env dur NPLC extra pixels ssvocs s1)) = events s1 @ es"
    and ok: "list_all (respects_lock l) es"
    by (auto simp: grows_def)
  from ev es have "ConfigureDC setpoints \<in> set es"
    by (simp add: launch_after_bootstrap [OF boot])
  with ok have "respects_lock l (ConfigureDC setpoints)" by (simp add: list_all_iff)
  with v have okv: "lock_ok l v" by (auto simp: respects_lock_def list_all_iff)
  then have "v = lock_clamp l v" by (auto simp: lock_ok_def lock_clamp_def)
  with lock have img: "\<exists>l u. voltage_lock s1 = Some l \<and> v = lock_clamp l u" by blast
  have clamp: "\<forall>l u. lock_clamp l u =
      (if l \<and> u < 0 then 1 / 10000 else if \<not> l \<and> 0 < u then - (1 / 10000) else u)"
    by (simp add: lock_clamp_def)
  from okv lock have sides: "(voltage_lock s1 = Some True \<longrightarrow> 0 \<le> v)
      \<and> (voltage_lock s1 = Some False \<longrightarrow> v \<le> 0)"
    by (auto simp: lock_ok_def)
  from lk have first: "\<exists>c voc rest. Voc s1 = (c, voc) # rest \<and> voltage_lock s1 = Some (0 \<le> voc)"
    by blast
  from first sides img clamp show ?thesis by blast
qed

lemma setpoints_pass_lock_clamp_example:
  "bootstrap (sim_env dead) (- 1) (1 / 10) one_pixel fresh = (dead_booted, Inr dead_ssvocs)
   \<and> ConfigureDC [(0, 1 / 10000)] \<in> set (drop (length (events dead_booted))
        (events (fst (launch_tracker 10 (sim_env dead) 2 (- 1) 3 (1 / 10)
                        ''gd://10:0.002:-1:0:0.1:0.1:-0.01'' one_pixel fresh))))
   \<and> voltage_lock dead_booted = Some True
   \<and> (0 :: real) \<le> 1 / 10000
   \<and> lock_clamp True (0 + - (1 / 100)) = 1 / 10000"
proof -
  have ev: "ConfigureDC [(0, 1 / 10000)] \<in> set (drop (length (events dead_booted))
        (events (fst (launch_tracker 10 (sim_env dead) 2 (- 1) 3 (1 / 10)
                        ''gd://10:0.002:-1:0:0.1:0.1:-0.01'' one_pixel fresh))))"
    by (simp add: dead_backward_run dead_booted_def)
  have v: "(0 :: int, 1 / 10000 :: real) \<in> set [(0, 1 / 10000)]" by simp
  have lk: "voltage_lock dead_booted = Some True" by (simp add: dead_booted_def)
  have cl: "lock_clamp True (0 + - (1 / 100)) = 1 / 10000" by (simp add: lock_clamp_def)
  from setpoints_pass_lock_clamp [OF bootstrap_dead ev v] lk bootstrap_dead ev cl
  show ?thesis by simp
qed

text \<open>
  C1: under a positive lock (open-circuit voltage of the first channel \<open>\<ge> 0\<close>) every
  voltage commanded through \<open>configure_dc\<close>, the initial setpoints at \<open>V_mpp\<close> and the
  setpoints of every iteration of \<open>gradient_descent\<close>, is \<open>> 0\<close>; the source says so
  itself where it sets the lock (\<open>lock mppt voltage to be >0\<close>). The code does not keep
  this at zero: the initial setpoints are applied before the lock is set and are never
  restricted, and the restriction in \<open>gradient_descent\<close> replaces a setpoint only when
  it is \<open>< 0\<close>. On a device that reads 0 V, with \<open>delta_zero = 0\<close>, the lock is positive,
  and \<open>configure_dc\<close> commands 0 V both in the bootstrap and in the first iteration of the
  main loop.
\<close>

theorem zero_setpoint_in_gradient_descent:
  "voltage_lock (fst (launch_tracker 10 (sim_env dead) 2 (- 1) 3 (1 / 10)
       ''gd://10:0.002:-1:0:0.1:0.1:0'' one_pixel fresh)) = Some True
   \<and> Voc (fst (launch_tracker 10 (sim_env dead) 2 (- 1) 3 (1 / 10)
       ''gd://10:0.002:-1:0:0.1:0.1:0'' one_pixel fresh)) = [(0, 0)]
   \<and> events (fst (launch_tracker 10 (sim_env dead) 2 (- 1) 3 (1 / 10)
       ''gd://10:0.002:-1:0:0.1:0.1:0'' one_pixel fresh))
     = [EnableOutput False [0], Measure [0], ConfigureDC [(0, 0)],
        EnableOutput True [0], Measure [0], Callback [(0, 0, 0, 5, 0)],
        ConfigureDC [(0, 0)], Sleep 0, Measure [0], Callback [(0, 0, 0, 9, 0)]]"
  by (simp add: dead_zero_delta_run dead_booted_def)

subsection \<open>Evicted channels\<close>

text \<open>
  C2: a channel that the safety monitor has evicted receives no further \<open>configure_dc\<close>
  setpoint. The code does not keep this: \<open>next_voltages\<close> is never pruned, so after
  channel 0 is disabled and removed from \<open>pixels\<close> in the first iteration below, the
  second iteration still commands a setpoint for channel 0, while it measures channel 2
  only.
\<close>

theorem evicted_channel_still_configured:
  "events (fst (launch_tracker 10 (sim_env short_on_0) 3 (- 1) 3 (1 / 10) ''gd://'' two_pixels fresh))
   = [EnableOutput False [0, 2], Measure [0, 2],
      ConfigureDC [(0, 7 / 20), (2, 7 / 20)], EnableOutput True [0, 2],
      Measure [0, 2],
      Callback [(0, 1 / 2, - (1 / 100), 5, 0), (2, 1 / 2, - (1 / 100), 5, 0)],
      ConfigureDC [(0, 9 / 25), (2, 9 / 25)], Sleep 0, Measure [0, 2],
      EnableOutput False [0], Warn (warn_message ''A''), LogInfo (warn_message ''A''),
      Callback [(2, 1 / 2, - (1 / 100), 9, 0)],
      ConfigureDC [(0, 9 / 25), (2, 181 / 500)], Sleep 0, Measure [2],
      Callback [(2, 1 / 2, - (1 / 100), 16, 0)]]"
  by (simp add: short_run)

subsection \<open>Snaith mode\<close>

text \<open>
  C4: a run with the algorithm \<open>snaith\<close> and a duration of \<open>D\<close> seconds soaks for 15 s,
  tracks for \<open>D - 18\<close> s and soaks for 3 s. The code does not get there: the log line of
  the pre-soak formats \<open>start_voltage\<close>, which \<open>launch_tracker\<close> passes as the dictionary
  \<open>self.Vmpp\<close>, with \<open>:0.2f\<close>, so every such run raises (\<open>TypeError\<close> once the bootstrap
  and the parameters are fine) before any soak.
\<close>

theorem snaith_always_raises:
  assumes fmt: "split_once ''://'' [] extra = [''snaith'', params]"
  shows "(\<exists>e. snd (launch_tracker fuel env dur NPLC voc_compliance i_limit extra pixels s) = Some (Inl e))
       \<and> (\<forall>s1 ssvocs. bootstrap env NPLC i_limit pixels s = (s1, Inr ssvocs) \<and> params = [] \<longrightarrow>
             launch_tracker fuel env dur NPLC voc_compliance i_limit extra pixels s
             = (if NPLC \<noteq> - 1 then emit (SetNplc NPLC) s1 else s1, Some (Inl TypeError)))"
proof -
  have gd: "wrap_gd ssvocs (gradient_descent fuel env dur (PyDict d) a b c True e1 f g h pixels s1)
      = (if c \<noteq> - 1 then emit (SetNplc c) s1 else s1, Some (Inl TypeError))"
    for ssvocs d a b c e1 f g h s1
    by (simp add: gradient_descent_def wrap_gd_def Let_def)
  show ?thesis
  proof (cases "bootstrap env NPLC i_limit pixels s")
    case (Pair s1 r)
    show ?thesis
    proof (cases r)
      case (Inl e)
      with Pair show ?thesis by (simp add: launch_tracker_def)
    next
      case (Inr ssvocs)
      with Pair have boot: "bootstrap env NPLC i_limit pixels s = (s1, Inr ssvocs)" by simp
      note lt = launch_after_bootstrap [OF boot, of fuel dur voc_compliance extra]
      note dc = dispatch_cases [OF fmt, of fuel env dur NPLC pixels ssvocs s1]
      show ?thesis
        unfolding lt dc boot
        by (cases "floats (to_float env) (split_char (CHR '':'') params)") (auto simp: gd)
    qed
  qed
qed

theorem snaith_always_raises_witness:
  "split_once ''://'' [] ''snaith://'' = [''snaith'', '''']
   \<and> launch_tracker 10 (sim_env quiet) 30 (- 1) 3 (1 / 10) ''snaith://'' one_pixel fresh
     = (quiet_booted, Some (Inl TypeError))"
proof -
  have fmt: "split_once ''://'' [] ''snaith://'' = [''snaith'', '''']" by simp
  from snaith_always_raises [OF fmt, of 10 "sim_env quiet" 30 "- 1" 3 "1 / 10" one_pixel fresh]
    bootstrap_quiet fmt
  show ?thesis by simp
qed

text \<open>
  When \<open>gradient_descent\<close> is called with a number as \<open>start_voltage\<close>, the soaks run,
  but the main loop compares the time since the start of \<open>launch_tracker\<close> with the
  duration already reduced by both soaks. With \<open>D = 30\<close> and a clock that advances one
  second per reading, fourteen pre-soak measurements and the bootstrap measurement are
  followed by the post-soak at once: the main loop does not run.
\<close>

lemma snaith_direct_run:
  "events (fst (gradient_descent 40 (sim_env quiet) 30 (PyFloat (7 / 20)) 10 (2 / 1000) (- 1) True 0
       (1 / 10) (1 / 10) (1 / 100) one_pixel quiet_booted))
   = events quiet_booted @
       concat (map (\<lambda>n. [Sleep 0, Measure [0], Callback [(0, 1 / 2, - (1 / 100), real n, 0)]])
          [6, 9, 12, 15, 18, 21, 24, 27, 30, 33, 36, 39, 42, 45])
     @ [Measure [0], Callback [(0, 1 / 2, - (1 / 100), 47, 0)]]
     @ [Measure [0], Callback [(0, 1 / 2, - (1 / 100), 49, 0)], Sleep 0,
        Measure [0], Callback [(0, 1 / 2, - (1 / 100), 52, 0)], Sleep 0]"
  by code_simp

subsection \<open>The step of the gradient descent\<close>

lemma grad_loop_frame:
  "grad_loop chs f0 f1 acc = Inr G \<Longrightarrow> ch \<notin> set chs \<Longrightarrow> map_of G ch = map_of acc ch"
proof (induction chs arbitrary: acc)
  case Nil
  then show ?case by simp
next
  case (Cons c chs)
  then show ?case
    by (auto simp: update_conv' split: sum.splits if_splits)
qed

lemma grad_loop_distinct:
  "grad_loop chs f0 f1 acc = Inr G \<Longrightarrow> distinct (map fst acc) \<Longrightarrow> distinct (map fst G)"
proof (induction chs arbitrary: acc)
  case Nil
  then show ?case by simp
next
  case (Cons c chs)
  then show ?case
    by (auto simp: distinct_update split: sum.splits if_splits)
qed

lemma grad_loop_entry:
  assumes "grad_loop chs f0 f1 acc = Inr G" "ch \<in> set chs"
  shows "\<exists>r0 r1. map_of f0 ch = Some r0 \<and> map_of f1 ch = Some r1
           \<and> map_of G ch = Some (grad_value r0 r1)
           \<and> (m_v r0 \<noteq> m_v r1 \<longrightarrow> m_t r0 \<noteq> m_t r1)"
  using assms
proof (induction chs arbitrary: acc)
  case Nil
  then show ?case by simp
next
  case (Cons c chs)
  from Cons.prems(1) obtain r0 r1 where r: "map_of f0 c = Some r0" "map_of f1 c = Some r1"
    by (auto simp: getitem_def split: sum.splits option.splits)
  from Cons.prems(1) r have ok: "m_v r0 \<noteq> m_v r1 \<longrightarrow> m_t r0 \<noteq> m_t r1"
    by (auto simp: getitem_def split: if_splits)
  from Cons.prems(1) r have loop:
    "grad_loop chs f0 f1 (AList.update c (grad_value r0 r1) acc) = Inr G"
    by (auto simp: getitem_def grad_value_def split: if_splits)
  show ?case
  proof (cases "ch \<in> set chs")
    case True
    from Cons.IH [OF loop True] show ?thesis .
  next
    case False
    with Cons.prems(2) have eq: "ch = c" by simp
    from grad_loop_frame [OF loop False] eq have "map_of G ch = Some (grad_value r0 r1)"
      by (simp add: update_conv')
    with r ok eq show ?thesis by simp
  qed
qed

lemma momentum_loop_frame:
  "momentum_loop P sg gs deltas = Inr D \<Longrightarrow> ch \<notin> fst ` set gs \<Longrightarrow> map_of D ch = map_of deltas ch"
proof (induction gs arbitrary: deltas)
  case Nil
  then show ?case by simp
next
  case (Cons x gs)
  obtain c g where x: "x = (c, g)" by (cases x)
  with Cons show ?case
    by (cases g) (auto simp: update_conv' split: sum.splits)
qed

lemma momentum_loop_entry:
  assumes "momentum_loop P sg gs deltas = Inr D" "distinct (map fst gs)" "(ch, g) \<in> set gs"
  shows "map_of D ch = Some (momentum_value P sg g (the (map_of deltas ch)))
       \<and> (g \<noteq> None \<longrightarrow> map_of deltas ch \<noteq> None)"
  using assms
proof (induction gs arbitrary: deltas)
  case Nil
  then show ?case by simp
next
  case (Cons x gs)
  obtain c gc where x: "x = (c, gc)" by (cases x)
  from Cons.prems(2) x have dist: "distinct (map fst gs)" and cnot: "c \<notin> fst ` set gs" by auto
  from Cons.prems(1) x have some: "gc \<noteq> None \<longrightarrow> map_of deltas c \<noteq> None"
    by (cases gc) (auto simp: getitem_def split: option.splits)
  from Cons.prems(1) x some have loop:
    "momentum_loop P sg gs (AList.update c (momentum_value P sg gc (the (map_of deltas c))) deltas) = Inr D"
    by (cases gc) (auto simp: getitem_def momentum_value_def split: option.splits)
  show ?case
  proof (cases "ch = c")
    case True
    with Cons.prems(2,3) x have g: "g = gc" by (auto simp: image_iff)
    from momentum_loop_frame [OF loop cnot] True g some show ?thesis
      by (simp add: update_conv')
  next
    case False
    with Cons.prems(3) x have mem: "(ch, g) \<in> set gs" by auto
    from Cons.IH [OF loop dist mem] False show ?thesis by (simp add: update_conv')
  qed
qed

lemma limit_steps_map_of:
  "map_of (limit_steps P sg D) ch = map_option (limit_step P sg) (map_of D ch)"
  by (induction D) (auto simp: limit_steps_def)

lemma limit_step_bounds:
  assumes "0 < min_step P" "min_step P \<le> max_step P" "sg = 1 \<or> sg = - 1"
  shows "min_step P \<le> \<bar>limit_step P sg u\<bar> \<and> \<bar>limit_step P sg u\<bar> \<le> max_step P"
  using assms by (auto simp: limit_step_def sign_def abs_mult)

lemma limit_step_sign:
  assumes "0 < min_step P" "min_step P \<le> max_step P" "min_step P \<le> \<bar>u\<bar>"
  shows "sign (limit_step P sg u) = sign u"
  using assms by (auto simp: limit_step_def sign_def mult_less_0_iff)

lemma compute_grad_entry:
  assumes "compute_grad (d0 # ms) = Inr G"
  shows "\<exists>d1 rest f0 f1. ms = d1 # rest \<and> first_records d0 = Inr f0 \<and> first_records d1 = Inr f1
     \<and> distinct (map fst G)
     \<and> (\<forall>ch\<in>set (keys d0). \<exists>r0 r1. map_of f0 ch = Some r0 \<and> map_of f1 ch = Some r1
           \<and> map_of G ch = Some (grad_value r0 r1)
           \<and> (m_v r0 \<noteq> m_v r1 \<longrightarrow> m_t r0 \<noteq> m_t r1))"
proof -
  from assms obtain d1 rest f0 f1 where ms: "ms = d1 # rest"
    and f: "first_records d0 = Inr f0" "first_records d1 = Inr f1"
    and loop: "grad_loop (keys d0) f0 f1 [] = Inr G"
    by (auto simp: compute_grad_def split: list.splits sum.splits)
  from grad_loop_distinct [OF loop] have "distinct (map fst G)" by simp
  with ms f grad_loop_entry [OF loop] show ?thesis by blast
qed

text \<open>
  C5 (as stated in the specification): after the momentum update, \<open>|delta|\<close> is clamped
  into \<open>[min_step, max_step]\<close> preserving the sign of \<open>delta\<close>. This fails for a step below
  \<open>min_step\<close>: it is replaced by \<open>min_step\<close> with the random sign of the iteration. With a
  zero gradient and the previous step 0.01 the update gives +0.001, and with the coin on
  -1 the limits turn it into -0.002.
\<close>

theorem small_step_takes_random_sign:
  "momentum_loop (default_params 30) (- 1) [(0, Some 0)] [(0, 1 / 100)] = Inr [(0, 1 / 1000)]
   \<and> limit_steps (default_params 30) (- 1) [(0, 1 / 1000)] = [(0, - (2 / 1000))]
   \<and> sign (1 / 1000) = 1 \<and> sign (- (2 / 1000)) = - 1"
  by code_simp

text \<open>
  C5 (amended): in every iteration of the main loop that completes, for every channel of
  the newest measurement, with \<open>r0\<close> and \<open>r1\<close> the first records of the channel in the
  two newest measurements, the new step is \<open>limit_step\<close> of: the randomly signed minimum
  step (\<open>1e-4\<close> if \<open>min_step = 0\<close>) when \<open>V0 = V1\<close>, and otherwise
  \<open>-alpha \<cdot> g + momentum \<cdot> delta_prev\<close> with
  \<open>g = (f0 - f1) / (V0 - V1) / (t0 - t1)\<close> and \<open>f = V \<cdot> I\<close> (then \<open>t0 \<noteq> t1\<close>, or the
  iteration would have raised). \<open>limit_step\<close> replaces a step with \<open>|delta| < min_step\<close>
  (for \<open>min_step > 0\<close>) by \<open>min_step\<close> with the random sign, a step with
  \<open>|delta| > max_step\<close> by \<open>max_step\<close> with the sign of \<open>delta\<close>, and keeps any other
  step. For \<open>0 < min_step \<le> max_step\<close> the result lies in \<open>[min_step, max_step]\<close> in
  absolute value, and it has the sign of \<open>delta\<close> unless \<open>|delta| < min_step\<close>.
\<close>

theorem gd_step_delta:
  assumes "gd_step env P g s = (s', Inr g')"
  shows "(\<exists>data d1 rest f0 f1.
       gv_m g = d1 # rest \<and> gv_m g' = take 20 (data # gv_m g)
     \<and> first_records data = Inr f0 \<and> first_records d1 = Inr f1
     \<and> (\<forall>ch\<in>set (keys data). \<exists>r0 r1. map_of f0 ch = Some r0 \<and> map_of f1 ch = Some r1
          \<and> (m_v r0 \<noteq> m_v r1 \<longrightarrow> m_t r0 \<noteq> m_t r1 \<and> map_of (gv_deltas g) ch \<noteq> None)
          \<and> map_of (gv_deltas g') ch =
              Some (limit_step P (if coin env (gv_i g) then 1 else - 1)
                (if m_v r0 = m_v r1
                 then (if coin env (gv_i g) then 1 else - 1) * (if min_step P = 0 then 1 / 10000 else min_step P)
                 else - alpha P * ((objective r0 - objective r1) / (m_v r0 - m_v r1) / (m_t r0 - m_t r1))
                      + momentum P * the (map_of (gv_deltas g) ch)))))
   \<and> (\<forall>sg u. limit_step P sg u =
         (if \<bar>u\<bar> < min_step P \<and> 0 < min_step P then sg * min_step P
          else if max_step P < \<bar>u\<bar> then sign u * max_step P else u))
   \<and> (0 < min_step P \<and> min_step P \<le> max_step P \<longrightarrow>
        (\<forall>u. min_step P \<le> \<bar>limit_step P (if coin env (gv_i g) then 1 else - 1) u\<bar>
           \<and> \<bar>limit_step P (if coin env (gv_i g) then 1 else - 1) u\<bar> \<le> max_step P
           \<and> (min_step P \<le> \<bar>u\<bar> \<longrightarrow>
                sign (limit_step P (if coin env (gv_i g) then 1 else - 1) u) = sign u)))"
proof -
  define sg :: real where "sg = (if coin env (gv_i g) then 1 else - 1)"
  from assms obtain data G deltas1 where
    cg: "compute_grad (take 20 (data # gv_m g)) = Inr G"
    and ml: "momentum_loop P sg G (gv_deltas g) = Inr deltas1"
    and g': "gv_m g' = take 20 (data # gv_m g)" "gv_deltas g' = limit_steps P sg deltas1"
    by (auto simp: gd_step_def Let_def sg_def split: prod.splits sum.splits)
  have tk: "take 20 (data # gv_m g) = data # take 19 (gv_m g)"
    by (simp add: take_Cons')
  from compute_grad_entry [OF cg [unfolded tk]] obtain d1 rest' f0 f1 where
    ms: "take 19 (gv_m g) = d1 # rest'" and f: "first_records data = Inr f0" "first_records d1 = Inr f1"
    and dist: "distinct (map fst G)"
    and ent: "\<forall>ch\<in>set (keys data). \<exists>r0 r1. map_of f0 ch = Some r0 \<and> map_of f1 ch = Some r1
           \<and> map_of G ch = Some (grad_value r0 r1)
           \<and> (m_v r0 \<noteq> m_v r1 \<longrightarrow> m_t r0 \<noteq> m_t r1)"
    by blast
  from ms obtain rest where m: "gv_m g = d1 # rest"
    by (cases "gv_m g") (auto simp: take_Cons')
  have per: "\<forall>ch\<in>set (keys data). \<exists>r0 r1. map_of f0 ch = Some r0 \<and> map_of f1 ch = Some r1
          \<and> (m_v r0 \<noteq> m_v r1 \<longrightarrow> m_t r0 \<noteq> m_t r1 \<and> map_of (gv_deltas g) ch \<noteq> None)
          \<and> map_of (gv_deltas g') ch =
              Some (limit_step P sg
                (if m_v r0 = m_v r1
                 then sg * (if min_step P = 0 then 1 / 10000 else min_step P)
                 else - alpha P * ((objective r0 - objective r1) / (m_v r0 - m_v r1) / (m_t r0 - m_t r1))
                      + momentum P * the (map_of (gv_deltas g) ch)))"
  proof
    fix ch assume "ch \<in> set (keys data)"
    with ent obtain r0 r1 where r: "map_of f0 ch = Some r0" "map_of f1 ch = Some r1"
      and gr: "map_of G ch = Some (grad_value r0 r1)"
      and t: "m_v r0 \<noteq> m_v r1 \<longrightarrow> m_t r0 \<noteq> m_t r1"
      by blast
    from gr have mem: "(ch, grad_value r0 r1) \<in> set G" by (rule map_of_SomeD)
    from momentum_loop_entry [OF ml dist mem]
    have d1: "map_of deltas1 ch = Some (momentum_value P sg (grad_value r0 r1) (the (map_of (gv_deltas g) ch)))"
      and some: "grad_value r0 r1 \<noteq> None \<longrightarrow> map_of (gv_deltas g) ch \<noteq> None"
      by simp_all
    have val: "momentum_value P sg (grad_value r0 r1) (the (map_of (gv_deltas g) ch))
        = (if m_v r0 = m_v r1
                 then sg * (if min_step P = 0 then 1 / 10000 else min_step P)
                 else - alpha P * ((objective r0 - objective r1) / (m_v r0 - m_v r1) / (m_t r0 - m_t r1))
                      + momentum P * the (map_of (gv_deltas g) ch))"
      by (simp add: momentum_value_def grad_value_def)
    from some have some': "m_v r0 \<noteq> m_v r1 \<longrightarrow> map_of (gv_deltas g) ch \<noteq> None"
      by (simp add: grad_value_def)
    from d1 have "map_of (gv_deltas g') ch
        = Some (limit_step P sg (momentum_value P sg (grad_value r0 r1) (the (map_of (gv_deltas g) ch))))"
      by (simp add: g' limit_steps_map_of)
    with val r t some' show "\<exists>r0 r1. map_of f0 ch = Some r0 \<and> map_of f1 ch = Some r1
          \<and> (m_v r0 \<noteq> m_v r1 \<longrightarrow> m_t r0 \<noteq> m_t r1 \<and> map_of (gv_deltas g) ch \<noteq> None)
          \<and> map_of (gv_deltas g') ch =
              Some (limit_step P sg
                (if m_v r0 = m_v r1
                 then sg * (if min_step P = 0 then 1 / 10000 else min_step P)
                 else - alpha P * ((objective r0 - objective r1) / (m_v r0 - m_v r1) / (m_t r0 - m_t r1))
                      + momentum P * the (map_of (gv_deltas g) ch)))"
      by auto
  qed
  have first: "\<exists>data d1 rest f0 f1.
       gv_m g = d1 # rest \<and> gv_m g' = take 20 (data # gv_m g)
     \<and> first_records data = Inr f0 \<and> first_records d1 = Inr f1
     \<and> (\<forall>ch\<in>set (keys data). \<exists>r0 r1. map_of f0 ch = Some r0 \<and> map_of f1 ch = Some r1
          \<and> (m_v r0 \<noteq> m_v r1 \<longrightarrow> m_t r0 \<noteq> m_t r1 \<and> map_of (gv_deltas g) ch \<noteq> None)
          \<and> map_of (gv_deltas g') ch =
              Some (limit_step P sg
                (if m_v r0 = m_v r1
                 then sg * (if min_step P = 0 then 1 / 10000 else min_step P)
                 else - alpha P * ((objective r0 - objective r1) / (m_v r0 - m_v r1) / (m_t r0 - m_t r1))
                      + momentum P * the (map_of (gv_deltas g) ch))))"
    using m g'(1) f per by blast
  have second: "\<forall>sg u. limit_step P sg u =
         (if \<bar>u\<bar> < min_step P \<and> 0 < min_step P then sg * min_step P
          else if max_step P < \<bar>u\<bar> then sign u * max_step P else u)"
    by (simp add: limit_step_def)
  have sg1: "sg = 1 \<or> sg = - 1" by (simp add: sg_def)
  have third: "0 < min_step P \<and> min_step P \<le> max_step P \<longrightarrow>
        (\<forall>u. min_step P \<le> \<bar>limit_step P sg u\<bar> \<and> \<bar>limit_step P sg u\<bar> \<le> max_step P
           \<and> (min_step P \<le> \<bar>u\<bar> \<longrightarrow> sign (limit_step P sg u) = sign u))"
    using limit_step_bounds [OF _ _ sg1] limit_step_sign by blast
  from first second third show ?thesis unfolding sg_def by blast
qed

theorem gd_step_delta_witness:
  "gd_step (sim_env ramp) (default_params 30) ramp_g0 ramp_s0 = (ramp_s1, Inr ramp_g1)
   \<and> (\<exists>data d1 rest f0 f1.
       gv_m ramp_g0 = d1 # rest \<and> gv_m ramp_g1 = take 20 (data # gv_m ramp_g0)
     \<and> first_records data = Inr f0 \<and> first_records d1 = Inr f1
     \<and> (\<forall>ch\<in>set (keys data). \<exists>r0 r1. map_of f0 ch = Some r0 \<and> map_of f1 ch = Some r1
          \<and> (m_v r0 \<noteq> m_v r1 \<longrightarrow> m_t r0 \<noteq> m_t r1 \<and> map_of (gv_deltas ramp_g0) ch \<noteq> None)
          \<and> map_of (gv_deltas ramp_g1) ch =
              Some (limit_step (default_params 30) (if coin (sim_env ramp) (gv_i ramp_g0) then 1 else - 1)
                (if m_v r0 = m_v r1
                 then (if coin (sim_env ramp) (gv_i ramp_g0) then 1 else - 1)
                      * (if min_step (default_params 30) = 0 then 1 / 10000 else min_step (default_params 30))
                 else - alpha (default_params 30)
                        * ((objective r0 - objective r1) / (m_v r0 - m_v r1) / (m_t r0 - m_t r1))
                      + momentum (default_params 30) * the (map_of (gv_deltas ramp_g0) ch)))))
   \<and> map_of (gv_deltas ramp_g1) 0 = Some (13 / 500)"
proof -
  have d: "map_of (gv_deltas ramp_g1) 0 = Some (13 / 500)" by (simp add: ramp_g1_def)
  from gd_step_delta [OF ramp_step_run, THEN conjunct1] ramp_step_run d
  show ?thesis by blast
qed

subsection \<open>The outputs at the end of a run\<close>

lemma grows_dispatch_single:
  "grows single_disable s1 (fst (dispatch fuel env dur NPLC extra pixels ssvocs s1))"
proof (rule grows_dispatch [where J = "\<lambda>g. True"])
  show p: "\<And>e. silent e \<Longrightarrow> single_disable e"
    by (auto simp: silent_def single_disable_def split: event.splits)
  show "\<And>px x. grows single_disable s1 x
          \<Longrightarrow> grows single_disable s1 (fst (measure_and_check env px x))"
  proof -
    fix px x
    assume b: "grows single_disable s1 x"
    have en: "\<And>b c. single_disable (EnableOutput b [c])" by (simp add: single_disable_def)
    show "grows single_disable s1 (fst (measure_and_check env px x))"
      by (rule grows_measure_and_check [OF p en b])
  qed
  show "\<And>g. True \<Longrightarrow> single_disable (ConfigureDC (gv_next g))"
    by (simp add: single_disable_def)
qed simp_all

lemma grows_dispatch_clean:
  assumes clean: "\<forall>h c rows r. (c, rows) \<in> set (smu_measure env h) \<longrightarrow> r \<in> set rows
                  \<longrightarrow> m_status r \<noteq> 1 \<and> m_status r \<noteq> 2"
  shows "grows no_disable s1 (fst (dispatch fuel env dur NPLC extra pixels ssvocs s1))"
proof (rule grows_dispatch [where J = "\<lambda>g. True"])
  show p: "\<And>e. silent e \<Longrightarrow> no_disable e"
    by (auto simp: silent_def no_disable_def split: event.splits)
  show "\<And>px x. grows no_disable s1 x
          \<Longrightarrow> grows no_disable s1 (fst (measure_and_check env px x))"
  proof -
    fix px x
    assume b: "grows no_disable s1 x"
    show "grows no_disable s1 (fst (measure_and_check env px x))"
      by (rule grows_measure_and_check_clean [OF p clean b])
  qed
  show "\<And>g. True \<Longrightarrow> no_disable (ConfigureDC (gv_next g))"
    by (simp add: no_disable_def)
qed simp_all

text \<open>
  C7 (as stated in the specification): on every completion of \<open>launch_tracker\<close> all
  channel outputs are disabled before \<open>(traces, ssvocs)\<close> is returned. This fails:
  \<open>launch_tracker\<close> has no such step. In the run below, which ends normally, the last
  call of \<open>enable_output\<close> is the one that enables channel 0 in the bootstrap.
\<close>

theorem gd_run_returns_with_outputs_enabled:
  "launch_tracker 10 (sim_env quiet) 2 (- 1) 3 (1 / 10) ''gd://'' one_pixel fresh
   = (quiet_booted\<lparr>Vmpp := [(0, 1 / 2)], Impp := [(0, - (1 / 100))],
        events := [EnableOutput False [0], Measure [0], ConfigureDC [(0, 7 / 20)],
                   EnableOutput True [0], Measure [0], Callback [(0, 1 / 2, - (1 / 100), 5, 0)],
                   ConfigureDC [(0, 9 / 25)], Sleep 0, Measure [0],
                   Callback [(0, 1 / 2, - (1 / 100), 9, 0)]],
        ticks := 3\<rparr>,
      Some (Inr ([[]], quiet_ssvocs)))"
  by (rule quiet_default_run)

text \<open>
  C7 (amended): in every run of \<open>launch_tracker\<close> whose bootstrap succeeds, \<open>ssvocs\<close> is
  empty whenever an open-circuit voltage was already known, and it is the second
  component of the pair whenever the run returns one. The bootstrap ends with
  \<open>configure_dc\<close> and \<open>enable_output(True, channels)\<close>, and nothing disables the outputs
  afterwards, except that the safety monitor disables single channels it finds shorted:
  every later \<open>enable_output(False, \<dots>)\<close> names exactly one channel, and there is none
  when the source-measure unit never reports status 1 or 2.
\<close>

theorem launch_tracker_leaves_outputs_enabled:
  assumes boot: "bootstrap env NPLC i_limit pixels s = (s1, Inr ssvocs)"
  shows "(Voc s \<noteq> [] \<longrightarrow> ssvocs = [])
       \<and> (\<forall>m ssv. snd (launch_tracker fuel env dur NPLC voc_compliance i_limit extra pixels s)
                     = Some (Inr (m, ssv)) \<longrightarrow> ssv = ssvocs)
       \<and> (\<exists>pre values. events s1 = pre @ [ConfigureDC values, EnableOutput True (keys pixels)])
       \<and> (\<forall>chs. EnableOutput False chs \<in> set (drop (length (events s1))
              (events (fst (launch_tracker fuel env dur NPLC voc_compliance i_limit extra pixels s))))
             \<longrightarrow> length chs = 1)
       \<and> ((\<forall>h c rows r. (c, rows) \<in> set (smu_measure env h) \<longrightarrow> r \<in> set rows
                  \<longrightarrow> m_status r \<noteq> 1 \<and> m_status r \<noteq> 2)
           \<longrightarrow> (\<forall>chs. EnableOutput False chs \<notin> set (drop (length (events s1))
              (events (fst (launch_tracker fuel env dur NPLC voc_compliance i_limit extra pixels s))))))"
proof -
  note lt = launch_after_bootstrap [OF boot, of fuel dur voc_compliance extra]
  have a: "Voc s \<noteq> [] \<longrightarrow> ssvocs = []"
    using bootstrap_ssvocs [OF boot] by blast
  have b: "\<forall>m ssv. snd (launch_tracker fuel env dur NPLC voc_compliance i_limit extra pixels s)
                     = Some (Inr (m, ssv)) \<longrightarrow> ssv = ssvocs"
    unfolding lt using dispatch_ssvocs by blast
  note c = bootstrap_events [OF boot]
  have d: "\<forall>chs. EnableOutput False chs \<in> set (drop (length (events s1))
              (events (fst (launch_tracker fuel env dur NPLC voc_compliance i_limit extra pixels s))))
             \<longrightarrow> length chs = 1"
  proof (intro allI impI)
    fix chs
    assume mem: "EnableOutput False chs \<in> set (drop (length (events s1))
              (events (fst (launch_tracker fuel env dur NPLC voc_compliance i_limit extra pixels s))))"
    from grows_dispatch_single [of s1 fuel env dur NPLC extra pixels ssvocs]
    obtain es where "events (fst (dispatch fuel env dur NPLC extra pixels ssvocs s1)) = events s1 @ es"
      and ok: "list_all single_disable es"
      by (auto simp: grows_def)
    with mem have "EnableOutput False chs \<in> set es" by (simp add: lt)
    with ok have "single_disable (EnableOutput False chs)" by (simp add: list_all_iff)
    then show "length chs = 1" by (simp add: single_disable_def)
  qed
  have e: "(\<forall>h c rows r. (c, rows) \<in> set (smu_measure env h) \<longrightarrow> r \<in> set rows
                  \<longrightarrow> m_status r \<noteq> 1 \<and> m_status r \<noteq> 2)
           \<longrightarrow> (\<forall>chs. EnableOutput False chs \<notin> set (drop (length (events s1))
              (events (fst (launch_tracker fuel env dur NPLC voc_compliance i_limit extra pixels s)))))"
  proof (intro allI impI notI)
    fix chs
    assume clean: "\<forall>h c rows r. (c, rows) \<in> set (smu_measure env h) \<longrightarrow> r \<in> set rows
                  \<longrightarrow> m_status r \<noteq> 1 \<and> m_status r \<noteq> 2"
      and mem: "EnableOutput False chs \<in> set (drop (length (events s1))
              (events (fst (launch_tracker fuel env dur NPLC voc_compliance i_limit extra pixels s))))"
    from grows_dispatch_clean [OF clean, of s1 fuel dur NPLC extra pixels ssvocs]
    obtain es where "events (fst (dispatch fuel env dur NPLC extra pixels ssvocs s1)) = events s1 @ es"
      and ok: "list_all no_disable es"
      by (auto simp: grows_def)
    with mem have "EnableOutput False chs \<in> set es" by (simp add: lt)
    with ok have "no_disable (EnableOutput False chs)" by (simp add: list_all_iff)
    then show False by (simp add: no_disable_def)
  qed
  from a b c d e show ?thesis by blast
qed

theorem launch_tracker_leaves_outputs_enabled_witness:
  "bootstrap (sim_env quiet) (- 1) (1 / 10) one_pixel fresh = (quiet_booted, Inr quiet_ssvocs)
   \<and> snd (launch_tracker 10 (sim_env quiet) 2 (- 1) 3 (1 / 10) ''gd://'' one_pixel fresh)
       = Some (Inr ([[]], quiet_ssvocs))
   \<and> EnableOutput False [0] \<notin> set (drop (length (events quiet_booted))
        (events (fst (launch_tracker 10 (sim_env quiet) 2 (- 1) 3 (1 / 10) ''gd://'' one_pixel fresh))))"
proof -
  from launch_tracker_leaves_outputs_enabled [OF bootstrap_quiet, of 10 2 3 "''gd://''"] quiet_clean
  have "EnableOutput False [0] \<notin> set (drop (length (events quiet_booted))
        (events (fst (launch_tracker 10 (sim_env quiet) 2 (- 1) 3 (1 / 10) ''gd://'' one_pixel fresh))))"
    by blast
  with bootstrap_quiet show ?thesis by (simp add: quiet_default_run)
qed

subsection \<open>The validation of the algorithm string\<close>

lemma getitem_error: "getitem d k = Inl e \<Longrightarrow> \<not> config_error e"
  by (auto simp: getitem_def config_error_def split: option.splits)

lemma time_sleep_error: "time_sleep d x = (x', Inl e) \<Longrightarrow> \<not> config_error e"
  by (auto simp: time_sleep_def config_error_def split: if_splits)

lemma probe_status_error: "probe_status env a b x = (x', Inl e) \<Longrightarrow> \<not> config_error e"
  by (auto simp: probe_status_def Let_def config_error_def getitem_def
        split: prod.splits sum.splits list.splits option.splits)

lemma detect_ch_error: "detect_ch env ch dp x = (x', Inl e) \<Longrightarrow> \<not> config_error e"
  unfolding detect_ch_def Let_def
  by (auto split: prod.splits sum.splits if_splits dest: getitem_error probe_status_error)

lemma detect_loop_error: "detect_loop env chs dp x = (x', Inl e) \<Longrightarrow> \<not> config_error e"
  by (induction chs arbitrary: dp x) (auto split: prod.splits sum.splits dest: detect_ch_error)

lemma tuplify_loop_error: "tuplify_loop xs acc = Inl e \<Longrightarrow> \<not> config_error e"
  by (induction xs acc rule: tuplify_loop.induct) (auto simp: config_error_def split: list.splits)

lemma measure_and_check_error:
  "measure_and_check env pixels x = (x', Inl e) \<Longrightarrow> \<not> config_error e"
  by (auto simp: measure_and_check_def detect_short_circuits_def tuplify_data_def Let_def
        split: prod.splits sum.splits dest: detect_loop_error tuplify_loop_error)

lemma spos_extend_error: "spos_extend xs spos = Inl e \<Longrightarrow> \<not> config_error e"
  by (induction xs spos rule: spos_extend.induct) (auto split: sum.splits dest: getitem_error)

lemma soak_loop_error:
  "soak_loop n env pre delay start T pixels spos x = (x', Some (Inl e)) \<Longrightarrow> \<not> config_error e"
proof (induction n arbitrary: pixels spos x)
  case 0
  then show ?case by simp
next
  case (Suc n)
  then show ?case
    by (auto simp: Let_def split: prod.splits sum.splits if_splits
          dest: time_sleep_error measure_and_check_error spos_extend_error)
qed

lemma soak_error: "soak n env pre delay T pixels q x = (x', Some (Inl e)) \<Longrightarrow> \<not> config_error e"
  by (auto simp: soak_def Let_def split: prod.splits option.splits sum.splits dest: soak_loop_error)

lemma read_run_time_error: "read_run_time env x = (x', Inl e) \<Longrightarrow> \<not> config_error e"
  by (auto simp: read_run_time_def Let_def config_error_def split: prod.splits option.splits)

lemma seed_loop_error: "seed_loop lock chs vm deltas nv = Inl e \<Longrightarrow> \<not> config_error e"
  by (induction chs arbitrary: nv)
     (auto simp: config_error_def split: sum.splits option.splits dest: getitem_error)

lemma step_loop_error: "step_loop lock chs deltas nv = Inl e \<Longrightarrow> \<not> config_error e"
  by (induction chs arbitrary: nv)
     (auto simp: config_error_def split: sum.splits option.splits dest: getitem_error)

lemma grad_loop_error: "grad_loop chs f0 f1 acc = Inl e \<Longrightarrow> \<not> config_error e"
  by (induction chs arbitrary: acc)
     (auto simp: config_error_def split: sum.splits if_splits dest: getitem_error)

lemma compute_grad_error: "compute_grad m = Inl e \<Longrightarrow> \<not> config_error e"
  by (auto simp: compute_grad_def first_records_def config_error_def
        split: list.splits sum.splits dest: grad_loop_error tuplify_loop_error)

lemma momentum_loop_error: "momentum_loop P sg gs deltas = Inl e \<Longrightarrow> \<not> config_error e"
  by (induction gs arbitrary: deltas)
     (auto simp: getitem_def config_error_def split: sum.splits option.splits)

lemma gd_step_error: "gd_step env P g x = (x', Inl e) \<Longrightarrow> \<not> config_error e"
  unfolding gd_step_def Let_def
  by (auto split: prod.splits sum.splits
        dest: time_sleep_error measure_and_check_error compute_grad_error momentum_loop_error
              step_loop_error read_run_time_error)

lemma gd_loop_error: "gd_loop n env P g x = (x', Some (Inl e)) \<Longrightarrow> \<not> config_error e"
  by (induction n arbitrary: g x)
     (auto split: prod.splits sum.splits if_splits dest: gd_step_error)

lemma gd_seed_error: "gd_seed env P pixels x = (x', Inl e) \<Longrightarrow> \<not> config_error e"
  unfolding gd_seed_def Let_def
  by (auto split: prod.splits sum.splits
        dest: measure_and_check_error read_run_time_error seed_loop_error)

lemma finish_loop_error: "finish_loop xs x = (x', Inl e) \<Longrightarrow> \<not> config_error e"
  by (induction xs x rule: finish_loop.induct) (auto simp: config_error_def split: list.splits)

lemma gd_finish_error: "gd_finish g x = (x', Inl e) \<Longrightarrow> \<not> config_error e"
  by (auto simp: gd_finish_def config_error_def split: list.splits dest: finish_loop_error)

lemma gd_main_error:
  "gd_main n env P sn pixels q x = (x', Some (Inl e)) \<Longrightarrow> \<not> config_error e"
  unfolding gd_main_def
  by (auto split: prod.splits sum.splits option.splits if_splits
        dest: gd_seed_error gd_loop_error soak_error gd_finish_error)

lemma gradient_descent_error:
  "gradient_descent n env dur sv a b c sn d e1 f g pixels x = (x', Some (Inl e)) \<Longrightarrow> \<not> config_error e"
  unfolding gradient_descent_def Let_def
  by (auto simp: config_error_def split: prod.splits sum.splits option.splits if_splits pyval.splits
        dest: gd_main_error soak_error)

lemma floats_Inl:
  "floats conv fs = Inl e \<longleftrightarrow> e = ValueError FloatConv \<and> (\<exists>f. f \<in> set fs \<and> conv f = None)"
  by (induction fs) (auto split: option.splits sum.splits)

lemma wrapped_gd_no_config_error:
  "snd (wrap_gd ssvocs (gradient_descent n env dur sv a b c sn d e1 f g pixels x)) = Some (Inl e)
     \<Longrightarrow> \<not> config_error e"
proof -
  assume a: "snd (wrap_gd ssvocs (gradient_descent n env dur sv a b c sn d e1 f g pixels x)) = Some (Inl e)"
  obtain x' r where gd: "gradient_descent n env dur sv a b c sn d e1 f g pixels x = (x', r)"
    by (cases "gradient_descent n env dur sv a b c sn d e1 f g pixels x")
  with a have "r = Some (Inl e)"
    by (auto simp: wrap_gd_def split: option.splits sum.splits prod.splits)
  with gd show "\<not> config_error e" by (auto dest: gradient_descent_error)
qed

text \<open>
  C8 (as stated in the specification): \<open>launch_tracker\<close> raises the \<open>ValueError\<close> at
  entry. This fails: the algorithm string is taken apart only after the bootstrap. In the
  run below the usage error is raised after the open-circuit voltage was probed, the
  setpoint applied and the output enabled.
\<close>

theorem usage_error_after_bootstrap:
  "launch_tracker 10 (sim_env quiet) 30 (- 1) 3 (1 / 10) ''gd://1:2'' one_pixel fresh
     = (quiet_booted, Some (Inl (ValueError Usage)))
   \<and> events fresh = []
   \<and> events quiet_booted
     = [EnableOutput False [0], Measure [0], ConfigureDC [(0, 7 / 20)], EnableOutput True [0]]"
proof -
  have b: "events fresh = []" by (simp add: fresh_def init_def)
  have c: "events quiet_booted
     = [EnableOutput False [0], Measure [0], ConfigureDC [(0, 7 / 20)], EnableOutput True [0]]"
    by (simp add: quiet_booted_def)
  from bad_params_run b c show ?thesis by (intro conjI)
qed

text \<open>
  C8 (amended): in every run of \<open>launch_tracker\<close> whose bootstrap succeeds and whose
  algorithm string has the form \<open>algo://params\<close>: the usage \<open>ValueError\<close> is raised if
  and only if \<open>algo\<close> is \<open>gd\<close> or \<open>snaith\<close> and \<open>params\<close> is non-empty and does not have
  exactly 7 fields between colons; the \<open>ValueError\<close> of \<open>float\<close> is raised if and only if
  there are 7 fields and one of them is not a float; either is raised after the
  bootstrap, whose events (ending with \<open>configure_dc\<close> and \<open>enable_output(True, \<dots>)\<close>)
  have been performed; empty \<open>params\<close> run \<open>gradient_descent\<close> with the defaults
  \<open>alpha = 10\<close>, \<open>min_step = 0.002\<close>, \<open>delay_ms = 0\<close>, \<open>max_step = 0.1\<close>,
  \<open>momentum = 0.1\<close>, \<open>delta_zero = 0.01\<close>; and any other \<open>algo\<close> logs the warning
  and returns an empty list of traces with the bootstrap records, without raising.
\<close>

theorem launch_tracker_validation:
  assumes boot: "bootstrap env NPLC i_limit pixels s = (s1, Inr ssvocs)"
    and fmt: "split_once ''://'' [] extra = [algo, params]"
  shows
   "(snd (launch_tracker fuel env dur NPLC voc_compliance i_limit extra pixels s)
        = Some (Inl (ValueError Usage))
      \<longleftrightarrow> (algo = ''gd'' \<or> algo = ''snaith'') \<and> params \<noteq> []
          \<and> length (split_char (CHR '':'') params) \<noteq> 7)
  \<and> (snd (launch_tracker fuel env dur NPLC voc_compliance i_limit extra pixels s)
        = Some (Inl (ValueError FloatConv))
      \<longleftrightarrow> (algo = ''gd'' \<or> algo = ''snaith'') \<and> params \<noteq> []
          \<and> length (split_char (CHR '':'') params) = 7
          \<and> (\<exists>f. f \<in> set (split_char (CHR '':'') params) \<and> to_float env f = None))
  \<and> ((snd (launch_tracker fuel env dur NPLC voc_compliance i_limit extra pixels s)
          = Some (Inl (ValueError Usage))
       \<or> snd (launch_tracker fuel env dur NPLC voc_compliance i_limit extra pixels s)
          = Some (Inl (ValueError FloatConv)))
      \<longrightarrow> fst (launch_tracker fuel env dur NPLC voc_compliance i_limit extra pixels s) = s1
          \<and> (\<exists>pre values. events s1 = pre @ [ConfigureDC values, EnableOutput True (keys pixels)]))
  \<and> ((algo = ''gd'' \<or> algo = ''snaith'') \<and> params = [] \<longrightarrow>
        launch_tracker fuel env dur NPLC voc_compliance i_limit extra pixels s
        = wrap_gd ssvocs (gradient_descent fuel env dur (PyDict (Vmpp s1)) 10 (2 / 1000) NPLC
              (algo = ''snaith'') 0 (1 / 10) (1 / 10) (1 / 100) pixels s1))
  \<and> (algo \<noteq> ''gd'' \<and> algo \<noteq> ''snaith'' \<longrightarrow>
        launch_tracker fuel env dur NPLC voc_compliance i_limit extra pixels s
        = (emit (LogInfo (algo_warning algo)) s1, Some (Inr ([], ssvocs))))"
proof -
  let ?L = "launch_tracker fuel env dur NPLC voc_compliance i_limit extra pixels s"
  let ?ps = "split_char (CHR '':'') params"
  note lt = launch_after_bootstrap [OF boot, of fuel dur voc_compliance extra]
  note dc = dispatch_cases [OF fmt, of fuel env dur NPLC pixels ssvocs s1]
  note ev = bootstrap_events [OF boot]
  have nc: "snd (wrap_gd ssvocs (gradient_descent fuel env dur sv a b c sn d e1 f g pixels s1))
              \<noteq> Some (Inl (ValueError Usage))
          \<and> snd (wrap_gd ssvocs (gradient_descent fuel env dur sv a b c sn d e1 f g pixels s1))
              \<noteq> Some (Inl (ValueError FloatConv))" for sv a b c sn d e1 f g
    using wrapped_gd_no_config_error [of ssvocs fuel env dur sv a b c sn d e1 f g pixels s1]
    by (auto simp: config_error_def)
  show ?thesis
  proof (cases "algo = ''gd'' \<or> algo = ''snaith''")
    case False
    with lt dc show ?thesis by simp
  next
    case algo: True
    show ?thesis
    proof (cases "params = []")
      case True
      with algo lt dc have eq: "?L = wrap_gd ssvocs (gradient_descent fuel env dur (PyDict (Vmpp s1))
          10 (2 / 1000) NPLC (algo = ''snaith'') 0 (1 / 10) (1 / 10) (1 / 100) pixels s1)"
        by simp
      from nc [of "PyDict (Vmpp s1)" 10 "2 / 1000" NPLC "algo = ''snaith''" 0 "1 / 10" "1 / 10" "1 / 100"]
      have "snd ?L \<noteq> Some (Inl (ValueError Usage))" "snd ?L \<noteq> Some (Inl (ValueError FloatConv))"
        unfolding eq by simp_all
      with eq algo True show ?thesis by auto
    next
      case ne: False
      show ?thesis
      proof (cases "length ?ps \<noteq> 7")
        case True
        with algo ne lt dc ev show ?thesis by auto
      next
        case seven: False
        show ?thesis
        proof (cases "floats (to_float env) ?ps")
          case (Inl e)
          then have "e = ValueError FloatConv"
            and "\<exists>f. f \<in> set ?ps \<and> to_float env f = None"
            by (simp_all add: floats_Inl)
          with Inl algo ne seven lt dc ev show ?thesis by auto
        next
          case (Inr fs)
          then have nf: "\<not> (\<exists>f. f \<in> set ?ps \<and> to_float env f = None)"
            using floats_Inl [of "to_float env" ?ps] by auto
          from Inr algo ne seven lt dc have eq: "?L = wrap_gd ssvocs (gradient_descent fuel env dur
              (PyDict (Vmpp s1)) (fs ! 0) (fs ! 1) (fs ! 2) (algo = ''snaith'') (fs ! 3)
              (fs ! 4) (fs ! 5) (fs ! 6) pixels s1)"
            by simp
          from nc [of "PyDict (Vmpp s1)" "fs ! 0" "fs ! 1" "fs ! 2" "algo = ''snaith''" "fs ! 3"
                     "fs ! 4" "fs ! 5" "fs ! 6"]
          have "snd ?L \<noteq> Some (Inl (ValueError Usage))" "snd ?L \<noteq> Some (Inl (ValueError FloatConv))"
            unfolding eq by simp_all
          with algo ne seven nf show ?thesis by auto
        qed
      qed
    qed
  qed
qed

theorem launch_tracker_validation_witness:
  "bootstrap (sim_env quiet) (- 1) (1 / 10) one_pixel fresh = (quiet_booted, Inr quiet_ssvocs)
   \<and> split_once ''://'' [] ''gd://1:2'' = [''gd'', ''1:2'']
   \<and> snd (launch_tracker 10 (sim_env quiet) 30 (- 1) 3 (1 / 10) ''gd://1:2'' one_pixel fresh)
       = Some (Inl (ValueError Usage))
   \<and> fst (launch_tracker 10 (sim_env quiet) 30 (- 1) 3 (1 / 10) ''gd://1:2'' one_pixel fresh)
       = quiet_booted"
proof -
  have fmt: "split_once ''://'' [] ''gd://1:2'' = [''gd'', ''1:2'']" by simp
  have len: "length (split_char (CHR '':'') ''1:2'') \<noteq> 7" by simp
  from launch_tracker_validation [OF bootstrap_quiet fmt, of 10 30 3] len bootstrap_quiet fmt
  show ?thesis by simp
qed

subsection \<open>The algorithm string \<open>basic\<close>\<close>

text \<open>
  C9 (as stated in the specification): for the algorithm string \<open>basic\<close>,
  \<open>launch_tracker\<close> runs the perturb-and-observe tracker and returns its measurement
  trace. This fails: \<open>really_dumb_tracker\<close> is commented out and \<open>launch_tracker\<close>
  has no branch for \<open>basic\<close>. In the run below nothing is commanded or measured after the
  bootstrap, the only further event is the log line of the unknown algorithm, and the
  list of traces is empty.
\<close>

theorem basic_runs_no_tracker:
  "launch_tracker 10 (sim_env quiet) 30 (- 1) 3 (1 / 10) ''basic://7:10'' one_pixel fresh
   = (quiet_booted\<lparr>events :=
        [EnableOutput False [0], Measure [0], ConfigureDC [(0, 7 / 20)], EnableOutput True [0],
         LogInfo ''WARNING: MPPT algorithm basic not understood, not doing max power point tracking'']\<rparr>,
      Some (Inr ([], quiet_ssvocs)))"
  by code_simp

text \<open>
  C9 (amended): whenever the bootstrap succeeds, \<open>launch_tracker\<close> with an algorithm
  string \<open>basic://\<dots>\<close> treats \<open>basic\<close> like any unknown algorithm: it logs the warning,
  does no tracking, and returns an empty list of traces together with the bootstrap
  records.
\<close>

theorem basic_not_dispatched:
  assumes "bootstrap env NPLC i_limit pixels s = (s1, Inr ssvocs)"
  shows "launch_tracker fuel env dur NPLC voc_compliance i_limit (''basic://'' @ params) pixels s
         = (emit (LogInfo (algo_warning ''basic'')) s1, Some (Inr ([], ssvocs)))"
  using assms by (simp add: launch_tracker_def dispatch_def)

theorem basic_not_dispatched_witness:
  "bootstrap (sim_env quiet) (- 1) (1 / 10) one_pixel fresh = (quiet_booted, Inr quiet_ssvocs)
   \<and> launch_tracker 3 (sim_env quiet) 30 (- 1) 3 (1 / 10) (''basic://'' @ ''7:10'') one_pixel fresh
     = (emit (LogInfo (algo_warning ''basic'')) quiet_booted, Some (Inr ([], quiet_ssvocs)))"
  using basic_not_dispatched [OF bootstrap_quiet] bootstrap_quiet by simp

subsection \<open>The argument \<open>i_limit\<close>\<close>

text \<open>
  C10: two calls of \<open>launch_tracker\<close> on the same tracker state and the same
  source-measure unit that differ only in \<open>i_limit\<close> perform the same events and
  return the same result: the clamped value is never used.
\<close>

theorem i_limit_noninterference:
  "launch_tracker fuel env dur NPLC voc_compliance i_limit extra pixels s
   = launch_tracker fuel env dur NPLC voc_compliance i_limit' extra pixels s"
  by (simp add: launch_tracker_def bootstrap_def Let_def)

end
